theory Spec2Isabelle
  imports Main
begin

section \<open>Python list primitives used by the game\<close>

text \<open>
  The game keeps its board as a Python list of lists of integers.  Indexing a Python
  list with an integer \<open>i\<close> accepts \<open>-len \<le> i < len\<close> (a negative index counts from the
  end) and raises \<open>IndexError\<close> otherwise.  Every list access of the source goes through
  the three functions below, so that each possible \<open>IndexError\<close> is a branch of the model.
\<close>

datatype py_error = IndexError

definition py_norm :: "nat \<Rightarrow> int \<Rightarrow> nat option" where
  "py_norm n i =
     (if 0 \<le> i \<and> i < int n then Some (nat i)
      else if - int n \<le> i \<and> i < 0 then Some (nat (int n + i))
      else None)"

definition py_get :: "'a list \<Rightarrow> int \<Rightarrow> py_error + 'a" where
  "py_get xs i = (case py_norm (length xs) i of None \<Rightarrow> Inl IndexError | Some j \<Rightarrow> Inr (xs ! j))"

definition py_set :: "'a list \<Rightarrow> int \<Rightarrow> 'a \<Rightarrow> py_error + 'a list" where
  "py_set xs i v =
     (case py_norm (length xs) i of None \<Rightarrow> Inl IndexError | Some j \<Rightarrow> Inr (xs[j := v]))"

text \<open>\<open>list.pop(i)\<close>; the source discards the popped row, so only the remaining list is kept.\<close>

definition py_pop :: "'a list \<Rightarrow> int \<Rightarrow> py_error + 'a list" where
  "py_pop xs i =
     (case py_norm (length xs) i of None \<Rightarrow> Inl IndexError | Some j \<Rightarrow> Inr (take j xs @ drop (Suc j) xs))"

text \<open>\<open>range(a, b)\<close> and \<open>range(a, b, -1)\<close>.\<close>

definition py_range :: "int \<Rightarrow> int \<Rightarrow> int list" where
  "py_range a b = [a..b - 1]"

definition py_range_down :: "int \<Rightarrow> int \<Rightarrow> int list" where
  "py_range_down a b = rev [b + 1..a]"

section \<open>Constants and piece shapes\<close>

definition FIELD_WIDTH :: int where
  "FIELD_WIDTH = 12"

definition FIELD_HEIGHT :: int where
  "FIELD_HEIGHT = 18"

definition tetromino :: "string list" where
  "tetromino =
     [''..X...X...X...X.'',
      ''..X..XX..X......'',
      ''.X...XX...X.....'',
      ''.....XX..XX.....'',
      ''.X...X...XX.....'',
      ''..X...X..XX.....'',
      ''.X...XX...X.....'']"

section \<open>Core logic\<close>

text \<open>
  \<open>rotate(px, py, r)\<close>.  Python's \<open>%\<close> with a positive modulus gives a non-negative
  remainder, as \<open>mod\<close> on \<open>int\<close> does.  The source initialises \<open>index = 0\<close> and leaves it
  when no branch of the \<open>if/elif\<close> chain is taken; that is the last \<open>else\<close> here.
\<close>

definition rotate_idx :: "int \<Rightarrow> int \<Rightarrow> int \<Rightarrow> int" where
  "rotate_idx px py r0 =
     (let r = r0 mod 4 in
      if r = 0 then py * 4 + px
      else if r = 1 then 12 + py - (px * 4)
      else if r = 2 then 15 - (py * 4) - px
      else if r = 3 then 3 - py + (px * 4)
      else 0)"

text \<open>
  The expression \<open>tetromino[piece][rotate(px, py, rot)] == 'X'\<close>, which the source
  writes out in \<open>does_piece_fit\<close>, \<open>lock_piece\<close> and \<open>draw_board_svg\<close>.
\<close>

definition occupies_cell :: "int \<Rightarrow> int \<Rightarrow> int \<Rightarrow> int \<Rightarrow> py_error + bool" where
  "occupies_cell piece rot px py =
     (case py_get tetromino piece of
        Inl e \<Rightarrow> Inl e
      | Inr pattern \<Rightarrow>
          (case py_get pattern (rotate_idx px py rot) of
             Inl e \<Rightarrow> Inl e
           | Inr c \<Rightarrow> Inr (c = CHR ''X'')))"

text \<open>
  The pairs visited by \<open>for px in range(4): for py in range(4)\<close>, in the order of the
  nested loops (\<open>px\<close> outer, \<open>py\<close> inner).
\<close>

definition footprint :: "(int \<times> int) list" where
  "footprint = List.product (py_range 0 4) (py_range 0 4)"

text \<open>
  \<open>does_piece_fit\<close>: the loop over the footprint, leaving both loops at the first
  \<open>return False\<close>.
\<close>

fun fit_cells :: "int list list \<Rightarrow> int \<Rightarrow> int \<Rightarrow> int \<Rightarrow> int \<Rightarrow> (int \<times> int) list \<Rightarrow> py_error + bool" where
  "fit_cells fld n_tetromino n_rotation n_pos_x n_pos_y [] = Inr True"
| "fit_cells fld n_tetromino n_rotation n_pos_x n_pos_y ((px, py) # rest) =
     (case occupies_cell n_tetromino n_rotation px py of
        Inl e \<Rightarrow> Inl e
      | Inr occ \<Rightarrow>
          if occ then
            (let fi_x = n_pos_x + px; fi_y = n_pos_y + py in
             if fi_x < 0 \<or> fi_x \<ge> FIELD_WIDTH \<or> fi_y < 0 \<or> fi_y \<ge> FIELD_HEIGHT then Inr False
             else
               (case py_get fld fi_y of
                  Inl e \<Rightarrow> Inl e
                | Inr row \<Rightarrow>
                    (case py_get row fi_x of
                       Inl e \<Rightarrow> Inl e
                     | Inr c \<Rightarrow>
                         if c \<noteq> 0 then Inr False
                         else fit_cells fld n_tetromino n_rotation n_pos_x n_pos_y rest)))
          else fit_cells fld n_tetromino n_rotation n_pos_x n_pos_y rest)"

definition does_piece_fit :: "int list list \<Rightarrow> int \<Rightarrow> int \<Rightarrow> int \<Rightarrow> int \<Rightarrow> py_error + bool" where
  "does_piece_fit fld n_tetromino n_rotation n_pos_x n_pos_y =
     fit_cells fld n_tetromino n_rotation n_pos_x n_pos_y footprint"

section \<open>Game state\<close>

text \<open>
  The keys the game keeps in \<open>st.session_state\<close>.  The session state as a whole is a
  \<open>game option\<close>: \<open>None\<close> when the key \<open>field\<close> is absent (a fresh session, or after
  \<open>st.session_state.clear()\<close>).
\<close>

record game =
  field :: "int list list"
  score :: int
  game_over :: bool
  speed :: int
  speed_counter :: int
  piece_count :: int
  current_piece :: int
  current_rotation :: int
  current_x :: int
  current_y :: int

text \<open>
  \<open>lock_piece\<close>: \<open>field[y_pos + py][x_pos + px] = piece + 1\<close> reads the row object and
  stores into it.  The rows of the board are distinct objects (each is built by its own
  list expression), so the store changes exactly one row of the board.  An
  \<open>IndexError\<close> aborts the run; the model then returns the error only.
\<close>

fun lock_cells :: "int list list \<Rightarrow> int \<Rightarrow> int \<Rightarrow> int \<Rightarrow> int \<Rightarrow> (int \<times> int) list \<Rightarrow> py_error + int list list" where
  "lock_cells fld piece rot x_pos y_pos [] = Inr fld"
| "lock_cells fld piece rot x_pos y_pos ((px, py) # rest) =
     (case occupies_cell piece rot px py of
        Inl e \<Rightarrow> Inl e
      | Inr occ \<Rightarrow>
          if occ then
            (case py_get fld (y_pos + py) of
               Inl e \<Rightarrow> Inl e
             | Inr row \<Rightarrow>
                 (case py_set row (x_pos + px) (piece + 1) of
                    Inl e \<Rightarrow> Inl e
                  | Inr row' \<Rightarrow>
                      (case py_set fld (y_pos + py) row' of
                         Inl e \<Rightarrow> Inl e
                       | Inr fld' \<Rightarrow> lock_cells fld' piece rot x_pos y_pos rest)))
          else lock_cells fld piece rot x_pos y_pos rest)"

definition lock_piece :: "game \<Rightarrow> py_error + game" where
  "lock_piece g =
     (case lock_cells (field g) (current_piece g) (current_rotation g) (current_x g) (current_y g)
             footprint of
        Inl e \<Rightarrow> Inl e
      | Inr f \<Rightarrow> Inr (g\<lparr>field := f\<rparr>))"

text \<open>
  \<open>check_lines\<close>.  \<open>is_line\<close> is the inner loop over \<open>x\<close> with its \<open>break\<close>;
  \<open>collect_lines\<close> is the outer loop over \<open>y\<close>, returning \<open>lines_to_clear\<close> in the order
  of the appends; \<open>pop_rows\<close> and \<open>insert_rows\<close> are the two loops that follow.
\<close>

fun is_line :: "int list list \<Rightarrow> int \<Rightarrow> int list \<Rightarrow> py_error + bool" where
  "is_line fld y [] = Inr True"
| "is_line fld y (x # xs) =
     (case py_get fld y of
        Inl e \<Rightarrow> Inl e
      | Inr row \<Rightarrow>
          (case py_get row x of
             Inl e \<Rightarrow> Inl e
           | Inr c \<Rightarrow> if c = 0 then Inr False else is_line fld y xs))"

fun collect_lines :: "int list list \<Rightarrow> int list \<Rightarrow> py_error + int list" where
  "collect_lines fld [] = Inr []"
| "collect_lines fld (y # ys) =
     (case is_line fld y (py_range 1 (FIELD_WIDTH - 1)) of
        Inl e \<Rightarrow> Inl e
      | Inr full \<Rightarrow>
          (case collect_lines fld ys of
             Inl e \<Rightarrow> Inl e
           | Inr lines \<Rightarrow> Inr (if full then y # lines else lines)))"

fun pop_rows :: "int list list \<Rightarrow> int list \<Rightarrow> py_error + int list list" where
  "pop_rows fld [] = Inr fld"
| "pop_rows fld (y_line # rest) =
     (case py_pop fld y_line of
        Inl e \<Rightarrow> Inl e
      | Inr fld' \<Rightarrow> pop_rows fld' rest)"

definition new_row :: "int list" where
  "new_row = ((replicate (nat FIELD_WIDTH) 0)[0 := 9])[nat (FIELD_WIDTH - 1) := 9]"

fun insert_rows :: "nat \<Rightarrow> int list list \<Rightarrow> int list list" where
  "insert_rows 0 fld = fld"
| "insert_rows (Suc n) fld = insert_rows n (new_row # fld)"

definition check_lines :: "game \<Rightarrow> py_error + game" where
  "check_lines g =
     (case collect_lines (field g) (py_range_down (FIELD_HEIGHT - 2) (- 1)) of
        Inl e \<Rightarrow> Inl e
      | Inr lines_to_clear \<Rightarrow>
          if lines_to_clear \<noteq> [] then
            (let lines_cleared = length lines_to_clear;
                 score' = score g + push_bit lines_cleared 1 * 100
             in case pop_rows (field g) lines_to_clear of
                  Inl e \<Rightarrow> Inl e
                | Inr f \<Rightarrow> Inr (g\<lparr>score := score', field := insert_rows lines_cleared f\<rparr>))
          else Inr g)"

text \<open>
  \<open>new_piece\<close>; \<open>kind\<close> is the value returned by \<open>random.randint(0, 6)\<close>.
\<close>

definition new_piece :: "int \<Rightarrow> game \<Rightarrow> py_error + game" where
  "new_piece kind g =
     (let g' = g\<lparr>current_piece := kind, current_rotation := 0,
                 current_x := FIELD_WIDTH div 2 - 2, current_y := 0\<rparr>
      in case does_piece_fit (field g') (current_piece g') (current_rotation g') (current_x g')
                (current_y g') of
           Inl e \<Rightarrow> Inl e
         | Inr ok \<Rightarrow> Inr (if \<not> ok then g'\<lparr>game_over := True\<rparr> else g'))"

text \<open>
  The board \<open>initialize_game\<close> builds: \<open>FIELD_HEIGHT\<close> rows of \<open>FIELD_WIDTH\<close> zeros, in which the
  two loops then store 9 wherever \<open>x == 0\<close>, \<open>x == FIELD_WIDTH - 1\<close> or
  \<open>y == FIELD_HEIGHT - 1\<close>.
\<close>

definition initial_field :: "int list list" where
  "initial_field =
     map (\<lambda>y. map (\<lambda>x. if x = 0 \<or> x = FIELD_WIDTH - 1 \<or> y = FIELD_HEIGHT - 1 then 9 else 0)
                 (py_range 0 FIELD_WIDTH))
         (py_range 0 FIELD_HEIGHT)"

text \<open>
  \<open>initialize_game\<close>.  The four keys of the active piece do not exist before
  \<open>new_piece\<close> stores them; the record holds 0 there until then.
\<close>

definition initialize_game :: "int \<Rightarrow> game option \<Rightarrow> py_error + game" where
  "initialize_game kind session =
     (case session of
        Some g \<Rightarrow> Inr g
      | None \<Rightarrow>
          new_piece kind
            \<lparr>field = initial_field, score = 0, game_over = False, speed = 20,
             speed_counter = 0, piece_count = 0, current_piece = 0, current_rotation = 0,
             current_x = 0, current_y = 0\<rparr>)"

subsection \<open>Button handlers\<close>

definition handle_left :: "game \<Rightarrow> py_error + game" where
  "handle_left g =
     (case does_piece_fit (field g) (current_piece g) (current_rotation g) (current_x g - 1)
             (current_y g) of
        Inl e \<Rightarrow> Inl e
      | Inr ok \<Rightarrow> Inr (if ok then g\<lparr>current_x := current_x g - 1\<rparr> else g))"

definition handle_right :: "game \<Rightarrow> py_error + game" where
  "handle_right g =
     (case does_piece_fit (field g) (current_piece g) (current_rotation g) (current_x g + 1)
             (current_y g) of
        Inl e \<Rightarrow> Inl e
      | Inr ok \<Rightarrow> Inr (if ok then g\<lparr>current_x := current_x g + 1\<rparr> else g))"

definition handle_down :: "game \<Rightarrow> py_error + game" where
  "handle_down g =
     (case does_piece_fit (field g) (current_piece g) (current_rotation g) (current_x g)
             (current_y g + 1) of
        Inl e \<Rightarrow> Inl e
      | Inr ok \<Rightarrow> Inr (if ok then g\<lparr>current_y := current_y g + 1, speed_counter := 0\<rparr> else g))"

definition handle_rotate :: "game \<Rightarrow> py_error + game" where
  "handle_rotate g =
     (case does_piece_fit (field g) (current_piece g) (current_rotation g + 1) (current_x g)
             (current_y g) of
        Inl e \<Rightarrow> Inl e
      | Inr ok \<Rightarrow> Inr (if ok then g\<lparr>current_rotation := current_rotation g + 1\<rparr> else g))"

subsection \<open>The script body\<close>

text \<open>
  \<open>force_down_branch\<close> is the body of \<open>if force_down:\<close> (one gravity step), \<open>game_loop\<close>
  the statements from \<open>speed_counter += 1\<close> to the end of that branch.  \<open>kind\<close> is the
  value \<open>random.randint\<close> returns should \<open>new_piece\<close> be called.
\<close>

definition force_down_branch :: "int \<Rightarrow> game \<Rightarrow> py_error + game" where
  "force_down_branch kind g0 =
     (let g = g0\<lparr>speed_counter := 0\<rparr> in
      case does_piece_fit (field g) (current_piece g) (current_rotation g) (current_x g)
             (current_y g + 1) of
        Inl e \<Rightarrow> Inl e
      | Inr ok \<Rightarrow>
          if ok then Inr (g\<lparr>current_y := current_y g + 1\<rparr>)
          else
            (case lock_piece g of
               Inl e \<Rightarrow> Inl e
             | Inr g1 \<Rightarrow>
                 (case check_lines g1 of
                    Inl e \<Rightarrow> Inl e
                  | Inr g2 \<Rightarrow>
                      (case new_piece kind g2 of
                         Inl e \<Rightarrow> Inl e
                       | Inr g3 \<Rightarrow>
                           (let g4 = g3\<lparr>piece_count := piece_count g3 + 1\<rparr> in
                            Inr (if piece_count g4 mod 10 = 0 \<and> speed g4 > 10
                                 then g4\<lparr>speed := speed g4 - 1\<rparr> else g4))))))"

definition game_loop :: "int \<Rightarrow> game \<Rightarrow> py_error + game" where
  "game_loop kind g0 =
     (let g = g0\<lparr>speed_counter := speed_counter g0 + 1\<rparr>;
          force_down = (speed_counter g \<ge> speed g)
      in if force_down then force_down_branch kind g else Inr g)"

text \<open>
  One run of the script, from \<open>initialize_game()\<close> to \<open>st.rerun()\<close> or \<open>st.stop()\<close>.
  The result holds the session state after the run, the buttons the run has rendered,
  and how the run ended.  \<open>restart_clicked\<close> is the value of
  \<open>st.button("restart")\<close> on the game-over page.  The drawing of the board reads the
  state only and is left out.
\<close>

datatype button = Restart | Left | Down | Right | Rotate

datatype ending = Stopped | Rerun

definition script :: "int \<Rightarrow> int \<Rightarrow> bool \<Rightarrow> game option \<Rightarrow> py_error + (game option \<times> button list \<times> ending)" where
  "script kind_init kind_step restart_clicked session =
     (case initialize_game kind_init session of
        Inl e \<Rightarrow> Inl e
      | Inr g \<Rightarrow>
          if game_over g then
            (if restart_clicked then Inr (None, [Restart], Rerun)
             else Inr (Some g, [Restart], Stopped))
          else
            (case game_loop kind_step g of
               Inl e \<Rightarrow> Inl e
             | Inr g' \<Rightarrow> Inr (Some g', [Left, Down, Right, Rotate], Rerun)))"

section \<open>Predicates of the statements\<close>

text \<open>A board of the size the constants fix: \<open>FIELD_HEIGHT\<close> rows of \<open>FIELD_WIDTH\<close> cells.\<close>

definition wf_field :: "int list list \<Rightarrow> bool" where
  "wf_field f =
     (int (length f) = FIELD_HEIGHT \<and> list_all (\<lambda>row. int (length row) = FIELD_WIDTH) f)"

text \<open>The cell \<open>(x, y)\<close> lies on the board and is empty.\<close>

definition cell_free :: "int list list \<Rightarrow> int \<Rightarrow> int \<Rightarrow> bool" where
  "cell_free f x y =
     (0 \<le> x \<and> x < FIELD_WIDTH \<and> 0 \<le> y \<and> y < FIELD_HEIGHT \<and> f ! nat y ! nat x = 0)"

text \<open>A row whose interior cells (columns 1 to \<open>FIELD_WIDTH - 2\<close>) are all non-zero.\<close>

definition full_row :: "int list \<Rightarrow> bool" where
  "full_row row = (\<forall>x \<in> {1..FIELD_WIDTH - 2}. row ! nat x \<noteq> 0)"

text \<open>The number of full rows among the rows above the bottom row.\<close>

definition lines_full :: "int list list \<Rightarrow> nat" where
  "lines_full f = length (filter full_row (butlast f))"

text \<open>
  The border: a board of the right size whose columns 0 and \<open>FIELD_WIDTH - 1\<close> and whose
  row \<open>FIELD_HEIGHT - 1\<close> hold 9 in every cell.
\<close>

definition bordered :: "int list list \<Rightarrow> bool" where
  "bordered f =
     (wf_field f \<and>
      (\<forall>y \<in> {0..<FIELD_HEIGHT}. f ! nat y ! 0 = 9 \<and> f ! nat y ! nat (FIELD_WIDTH - 1) = 9) \<and>
      (\<forall>x \<in> {0..<FIELD_WIDTH}. f ! nat (FIELD_HEIGHT - 1) ! nat x = 9))"

text \<open>The active piece passes the collision test at its own placement.\<close>

definition fits_here :: "game \<Rightarrow> bool" where
  "fits_here g =
     (does_piece_fit (field g) (current_piece g) (current_rotation g) (current_x g) (current_y g)
        = Inr True)"

text \<open>
  The invariant of the game states: the border is intact, the active piece is one of the
  seven kinds, and unless the game is over the active piece fits where it is.
\<close>

definition game_inv :: "game \<Rightarrow> bool" where
  "game_inv g =
     (bordered (field g) \<and> 0 \<le> current_piece g \<and> current_piece g < 7 \<and>
      (\<not> game_over g \<longrightarrow> fits_here g))"

text \<open>
  The session states the application can reach: a fresh session; the state a run of the
  script leaves, for any values drawn by \<open>random.randint(0, 6)\<close> and either value of the
  restart button; and the state a button handler leaves.  The handlers are allowed in
  every state that holds a game, which is more than the rendered pages offer.
\<close>

inductive reachable :: "game option \<Rightarrow> bool" where
  fresh: "reachable None"
| run: "reachable s \<Longrightarrow> 0 \<le> k1 \<Longrightarrow> k1 \<le> 6 \<Longrightarrow> 0 \<le> k2 \<Longrightarrow> k2 \<le> 6 \<Longrightarrow>
        script k1 k2 clicked s = Inr (s', buttons, e) \<Longrightarrow> reachable s'"
| left: "reachable (Some g) \<Longrightarrow> handle_left g = Inr g' \<Longrightarrow> reachable (Some g')"
| right: "reachable (Some g) \<Longrightarrow> handle_right g = Inr g' \<Longrightarrow> reachable (Some g')"
| down: "reachable (Some g) \<Longrightarrow> handle_down g = Inr g' \<Longrightarrow> reachable (Some g')"
| rotate: "reachable (Some g) \<Longrightarrow> handle_rotate g = Inr g' \<Longrightarrow> reachable (Some g')"

text \<open>
  The state \<open>initialize_game\<close> builds in a fresh session when the first piece, of the
  given kind, fits: the empty bordered board, score 0, speed 20, the piece at its spawn
  placement.
\<close>

definition fresh_game :: "int \<Rightarrow> game" where
  "fresh_game kind =
     \<lparr>field = initial_field, score = 0, game_over = False, speed = 20, speed_counter = 0,
      piece_count = 0, current_piece = kind, current_rotation = 0, current_x = 4,
      current_y = 0\<rparr>"

text \<open>
  The board after line clearing, as the specification words it: the full rows above the
  bottom row removed, as many fresh rows put on top, the bottom row kept.
\<close>

definition cleared_rows :: "int list list \<Rightarrow> int list list" where
  "cleared_rows f =
     replicate (lines_full f) new_row @ filter (\<lambda>row. \<not> full_row row) (butlast f) @ [last f]"

text \<open>The score added for \<open>k\<close> cleared lines: nothing for none, else \<open>(1 << k) * 100\<close>.\<close>

definition line_bonus :: "nat \<Rightarrow> int" where
  "line_bonus k = (if k = 0 then 0 else push_bit k 1 * 100)"

text \<open>Gravity steps in a row, one for each drawn kind, stopping at the first error.\<close>

fun gravity_steps :: "int list \<Rightarrow> game \<Rightarrow> py_error + game" where
  "gravity_steps [] g = Inr g"
| "gravity_steps (kind # kinds) g =
     (case force_down_branch kind g of
        Inl e \<Rightarrow> Inl e
      | Inr g' \<Rightarrow> gravity_steps kinds g')"

text \<open>
  A test board: empty but for one block in row 15, a full row 16 and the border.
\<close>

definition one_line_field :: "int list list" where
  "one_line_field =
     replicate 15 (9 # replicate 10 0 @ [9]) @
     [9 # replicate 5 0 @ [2] @ replicate 4 0 @ [9],
      9 # replicate 10 1 @ [9],
      replicate 12 9]"

text \<open>
  A test state: rows 15 and 16 are full but for columns 5 and 6, and the O piece hangs
  right above that gap, one step from locking into it.
\<close>

definition two_gap_field :: "int list list" where
  "two_gap_field =
     replicate 15 (9 # replicate 10 0 @ [9]) @
     [9 # replicate 4 1 @ [0, 0] @ replicate 4 1 @ [9],
      9 # replicate 4 1 @ [0, 0] @ replicate 4 1 @ [9],
      replicate 12 9]"

definition two_gap_game :: game where
  "two_gap_game = (fresh_game 3)\<lparr>field := two_gap_field, current_y := 14, score := 700\<rparr>"

text \<open>
  A test board: column 6 is filled from row 1 down to row 16, as after four I pieces
  dropped from the spawn column; row 0 is empty.
\<close>

definition tower_field :: "int list list" where
  "tower_field =
     (9 # replicate 10 0 @ [9]) #
     replicate 16 (9 # replicate 5 0 @ [1] @ replicate 4 0 @ [9]) @
     [replicate 12 9]"

text \<open>
  What can happen to a session: a run of the script (with the kinds the two calls of
  \<open>random.randint\<close> would return and the value of the restart button), or a click on one
  of the four movement buttons, which runs its handler before the next run.  A session
  that holds no game has rendered no button, and a click event is ignored there.  \<open>play\<close>
  applies a list of events in order and stops at the first error.
\<close>

datatype event = Run int int bool | ClickLeft | ClickRight | ClickDown | ClickRotate

fun apply_event :: "event \<Rightarrow> game option \<Rightarrow> py_error + game option" where
  "apply_event (Run k1 k2 clicked) s =
     (case script k1 k2 clicked s of Inl e \<Rightarrow> Inl e | Inr (s', buttons, e) \<Rightarrow> Inr s')"
| "apply_event ev None = Inr None"
| "apply_event ClickLeft (Some g) = map_sum id Some (handle_left g)"
| "apply_event ClickRight (Some g) = map_sum id Some (handle_right g)"
| "apply_event ClickDown (Some g) = map_sum id Some (handle_down g)"
| "apply_event ClickRotate (Some g) = map_sum id Some (handle_rotate g)"

fun play :: "event list \<Rightarrow> game option \<Rightarrow> py_error + game option" where
  "play [] s = Inr s"
| "play (ev # evs) s = (case apply_event ev s of Inl e \<Rightarrow> Inl e | Inr s' \<Rightarrow> play evs s')"

text \<open>
  A game-over state: on \<open>tower_field\<close> the freshly spawned O piece collides with the
  tower, after four locked pieces.  \<open>tower_events\<close> is a play that ends there: four I
  pieces, each dropped with the down button and locked by the 20th run after the last
  click.  \<open>tower_before\<close> is the state before the last of these runs.
\<close>

definition tower_game :: game where
  "tower_game = (fresh_game 3)\<lparr>field := tower_field, game_over := True, piece_count := 4\<rparr>"

definition tower_events :: "event list" where
  "tower_events =
     Run 0 0 False #
     replicate 13 ClickDown @ replicate 20 (Run 0 0 False) @
     replicate 9 ClickDown @ replicate 20 (Run 0 0 False) @
     replicate 5 ClickDown @ replicate 20 (Run 0 0 False) @
     replicate 1 ClickDown @ replicate 20 (Run 0 3 False)"

definition tower_before :: game where
  "tower_before =
     (fresh_game 0)\<lparr>field := replicate 5 (9 # replicate 10 0 @ [9]) @
                                replicate 12 (9 # replicate 5 0 @ [1] @ replicate 4 0 @ [9]) @
                                [replicate 12 9],
                      current_y := 1, speed_counter := 19, piece_count := 3\<rparr>"

fun valid_event :: "event \<Rightarrow> bool" where
  "valid_event (Run k1 k2 clicked) = (0 \<le> k1 \<and> k1 \<le> 6 \<and> 0 \<le> k2 \<and> k2 \<le> 6)"
| "valid_event ev = True"

text \<open>
  A test state: the O piece rests on the floor of the empty board, one step from
  locking, with 9 pieces locked so far and speed 11.  \<open>low_locked_field\<close> is the board with
  that piece locked, \<open>two_gap_locked_field\<close> the board of \<open>two_gap_game\<close> with its piece
  locked.
\<close>

definition low_game :: game where
  "low_game = (fresh_game 3)\<lparr>current_y := 14, piece_count := 9, speed := 11\<rparr>"

definition low_locked_field :: "int list list" where
  "low_locked_field =
     replicate 15 (9 # replicate 10 0 @ [9]) @
     [9 # replicate 4 0 @ [4, 4] @ replicate 4 0 @ [9],
      9 # replicate 4 0 @ [4, 4] @ replicate 4 0 @ [9],
      replicate 12 9]"

definition two_gap_locked_field :: "int list list" where
  "two_gap_locked_field =
     replicate 15 (9 # replicate 10 0 @ [9]) @
     [9 # replicate 4 1 @ [4, 4] @ replicate 4 1 @ [9],
      9 # replicate 4 1 @ [4, 4] @ replicate 4 1 @ [9],
      replicate 12 9]"

section \<open>List access within range\<close>

lemma py_get_nonneg: "0 \<le> i \<Longrightarrow> i < int (length xs) \<Longrightarrow> py_get xs i = Inr (xs ! nat i)"
  by (simp add: py_get_def py_norm_def)

lemma py_set_nonneg:
  "0 \<le> i \<Longrightarrow> i < int (length xs) \<Longrightarrow> py_set xs i v = Inr (xs[nat i := v])"
  by (simp add: py_set_def py_norm_def)

lemma py_pop_nonneg:
  "0 \<le> i \<Longrightarrow> i < int (length xs) \<Longrightarrow> py_pop xs i = Inr (take (nat i) xs @ drop (Suc (nat i)) xs)"
  by (simp add: py_pop_def py_norm_def)

lemma wf_field_get:
  assumes "wf_field f" "0 \<le> x" "x < FIELD_WIDTH" "0 \<le> y" "y < FIELD_HEIGHT"
  shows "py_get f y = Inr (f ! nat y)"
    and "py_get (f ! nat y) x = Inr (f ! nat y ! nat x)"
    and "int (length (f ! nat y)) = FIELD_WIDTH"
proof -
  from assms have ly: "y < int (length f)" by (simp add: wf_field_def)
  with assms show "py_get f y = Inr (f ! nat y)" by (simp add: py_get_nonneg)
  from ly assms(4) have "f ! nat y \<in> set f" by simp
  with assms(1) show w: "int (length (f ! nat y)) = FIELD_WIDTH"
    by (simp add: wf_field_def list_all_iff)
  with assms show "py_get (f ! nat y) x = Inr (f ! nat y ! nat x)" by (simp add: py_get_nonneg)
qed

section \<open>Rotation and occupancy\<close>

lemma rotate_idx_bounds:
  "0 \<le> px \<Longrightarrow> px < 4 \<Longrightarrow> 0 \<le> py \<Longrightarrow> py < 4 \<Longrightarrow>
   0 \<le> rotate_idx px py r \<and> rotate_idx px py r < 16"
  by (auto simp: rotate_idx_def Let_def)

lemma rotate_idx_cases:
  "rotate_idx px py r =
     (if r mod 4 = 0 then py * 4 + px
      else if r mod 4 = 1 then 12 + py - px * 4
      else if r mod 4 = 2 then 15 - py * 4 - px
      else 3 - py + px * 4)"
proof -
  have "r mod 4 = 0 \<or> r mod 4 = 1 \<or> r mod 4 = 2 \<or> r mod 4 = 3" by presburger
  then show ?thesis by (auto simp: rotate_idx_def Let_def)
qed

lemma tetromino_nth:
  assumes "0 \<le> k" "k < 7"
  shows "py_get tetromino k = Inr (tetromino ! nat k) \<and> length (tetromino ! nat k) = 16"
proof -
  from assms have "k = 0 \<or> k = 1 \<or> k = 2 \<or> k = 3 \<or> k = 4 \<or> k = 5 \<or> k = 6" by presburger
  then show ?thesis
    by (elim disjE) (simp_all add: py_get_def py_norm_def tetromino_def)
qed

lemma occupies_cell_eq:
  assumes "0 \<le> k" "k < 7" "0 \<le> px" "px < 4" "0 \<le> py" "py < 4"
  shows "occupies_cell k r px py =
           Inr ((tetromino ! nat k) ! nat (rotate_idx px py r) = CHR ''X'')"
  using tetromino_nth[OF assms(1,2)] rotate_idx_bounds[OF assms(3-6), of r]
  by (simp add: occupies_cell_def py_get_nonneg)

lemma set_footprint: "set footprint = {0..3} \<times> {0..3}"
  by (simp add: footprint_def py_range_def)

section \<open>The collision test\<close>

lemma fit_cells_iff:
  assumes wf: "wf_field f" and k: "0 \<le> kind" "kind < 7"
    and cs: "set cs \<subseteq> {0..3} \<times> {0..3}"
  shows "fit_cells f kind r x y cs =
           Inr (\<forall>(px, py) \<in> set cs.
                  occupies_cell kind r px py = Inr True \<longrightarrow> cell_free f (x + px) (y + py))"
  using cs
proof (induction cs)
  case Nil
  then show ?case by simp
next
  case (Cons c cs)
  obtain px py where c: "c = (px, py)" by (cases c)
  with Cons.prems have b: "0 \<le> px" "px < 4" "0 \<le> py" "py < 4" by auto
  from Cons have IH: "fit_cells f kind r x y cs =
     Inr (\<forall>(px, py) \<in> set cs.
            occupies_cell kind r px py = Inr True \<longrightarrow> cell_free f (x + px) (y + py))"
    by simp
  obtain occ where occ: "occupies_cell kind r px py = Inr occ"
    using occupies_cell_eq[OF k b] by simp
  show ?case
  proof (cases occ)
    case False
    with occ c IH show ?thesis by simp
  next
    case True
    show ?thesis
    proof (cases "0 \<le> x + px \<and> x + px < FIELD_WIDTH \<and> 0 \<le> y + py \<and> y + py < FIELD_HEIGHT")
      case False
      with True occ c show ?thesis by (auto simp: cell_free_def Let_def)
    next
      case inb: True
      then have g: "py_get f (y + py) = Inr (f ! nat (y + py))"
        "py_get (f ! nat (y + py)) (x + px) = Inr (f ! nat (y + py) ! nat (x + px))"
        using wf_field_get[OF wf, of "x + px" "y + py"] by simp_all
      from inb True occ c IH g show ?thesis
        by (simp add: cell_free_def Let_def)
    qed
  qed
qed

lemma does_piece_fit_eq:
  assumes "wf_field f" "0 \<le> kind" "kind < 7"
  shows "does_piece_fit f kind r x y =
           Inr (\<forall>px \<in> {0..3}. \<forall>py \<in> {0..3}.
                  occupies_cell kind r px py = Inr True \<longrightarrow> cell_free f (x + px) (y + py))"
proof -
  have "fit_cells f kind r x y footprint =
     Inr (\<forall>(px, py) \<in> set footprint.
            occupies_cell kind r px py = Inr True \<longrightarrow> cell_free f (x + px) (y + py))"
    using assms by (intro fit_cells_iff) (simp_all add: set_footprint)
  then show ?thesis
    by (simp add: does_piece_fit_def set_footprint)
qed

lemma wf_initial_field: "wf_field initial_field"
  by code_simp

section \<open>Locking\<close>

lemma wf_field_update:
  assumes wf: "wf_field f" and b: "0 \<le> X0" "X0 < FIELD_WIDTH" "0 \<le> Y0" "Y0 < FIELD_HEIGHT"
  shows "wf_field (f[nat Y0 := (f ! nat Y0)[nat X0 := v]])"
proof -
  have "int (length ((f ! nat Y0)[nat X0 := v])) = FIELD_WIDTH"
    using wf_field_get(3)[OF wf b] by simp
  moreover have "set (f[nat Y0 := (f ! nat Y0)[nat X0 := v]]) \<subseteq> insert ((f ! nat Y0)[nat X0 := v]) (set f)"
    by (rule set_update_subset_insert)
  ultimately show ?thesis
    using wf unfolding wf_field_def list_all_iff by auto
qed

lemma cell_update:
  assumes wf: "wf_field f" and b: "0 \<le> X0" "X0 < FIELD_WIDTH" "0 \<le> Y0" "Y0 < FIELD_HEIGHT"
    and c: "0 \<le> X" "X < FIELD_WIDTH" "0 \<le> Y" "Y < FIELD_HEIGHT"
  shows "f[nat Y0 := (f ! nat Y0)[nat X0 := v]] ! nat Y ! nat X =
           (if X = X0 \<and> Y = Y0 then v else f ! nat Y ! nat X)"
proof -
  have ly: "nat Y0 < length f" "nat Y < length f" using wf b c unfolding wf_field_def by linarith+
  have lx: "nat X0 < length (f ! nat Y0)" using wf_field_get(3)[OF wf b] b by simp
  show ?thesis
  proof (cases "Y = Y0")
    case True
    with ly lx b c show ?thesis by (auto simp: nth_list_update)
  next
    case False
    with b c have "nat Y \<noteq> nat Y0" by simp
    with False show ?thesis by simp
  qed
qed

lemma lock_cells_ok:
  assumes k: "0 \<le> piece" "piece < 7"
  shows "wf_field f \<Longrightarrow> set cs \<subseteq> {0..3} \<times> {0..3} \<Longrightarrow>
     \<forall>(px, py) \<in> set cs. occupies_cell piece rot px py = Inr True \<longrightarrow>
        0 \<le> x + px \<and> x + px < FIELD_WIDTH \<and> 0 \<le> y + py \<and> y + py < FIELD_HEIGHT \<Longrightarrow>
     \<exists>f'. lock_cells f piece rot x y cs = Inr f' \<and> wf_field f' \<and>
       (\<forall>X Y. 0 \<le> X \<and> X < FIELD_WIDTH \<and> 0 \<le> Y \<and> Y < FIELD_HEIGHT \<longrightarrow>
          f' ! nat Y ! nat X =
            (if (X - x, Y - y) \<in> set cs \<and> occupies_cell piece rot (X - x) (Y - y) = Inr True
             then piece + 1 else f ! nat Y ! nat X))"
proof (induction cs arbitrary: f)
  case Nil
  then show ?case by simp
next
  case (Cons c cs)
  obtain px py where c: "c = (px, py)" by (cases c)
  with Cons.prems have b: "0 \<le> px" "px < 4" "0 \<le> py" "py < 4" by auto
  obtain occ where occ: "occupies_cell piece rot px py = Inr occ"
    using occupies_cell_eq[OF k b] by simp
  from Cons.prems have sub: "set cs \<subseteq> {0..3} \<times> {0..3}" by simp
  from Cons.prems have rest: "\<forall>(px, py) \<in> set cs. occupies_cell piece rot px py = Inr True \<longrightarrow>
        0 \<le> x + px \<and> x + px < FIELD_WIDTH \<and> 0 \<le> y + py \<and> y + py < FIELD_HEIGHT" by simp
  show ?case
  proof (cases occ)
    case False
    from Cons.IH[OF Cons.prems(1) sub rest] obtain f' where
      f': "lock_cells f piece rot x y cs = Inr f'" "wf_field f'"
        "\<forall>X Y. 0 \<le> X \<and> X < FIELD_WIDTH \<and> 0 \<le> Y \<and> Y < FIELD_HEIGHT \<longrightarrow>
          f' ! nat Y ! nat X =
            (if (X - x, Y - y) \<in> set cs \<and> occupies_cell piece rot (X - x) (Y - y) = Inr True
             then piece + 1 else f ! nat Y ! nat X)" by blast
    have "lock_cells f piece rot x y (c # cs) = Inr f'"
      using c occ False f'(1) by simp
    moreover have "\<forall>X Y. 0 \<le> X \<and> X < FIELD_WIDTH \<and> 0 \<le> Y \<and> Y < FIELD_HEIGHT \<longrightarrow>
          f' ! nat Y ! nat X =
            (if (X - x, Y - y) \<in> set (c # cs) \<and> occupies_cell piece rot (X - x) (Y - y) = Inr True
             then piece + 1 else f ! nat Y ! nat X)"
      using f'(3) c occ False by auto
    ultimately show ?thesis using f'(2) by blast
  next
    case True
    with Cons.prems(3) c occ have inb:
      "0 \<le> x + px" "x + px < FIELD_WIDTH" "0 \<le> y + py" "y + py < FIELD_HEIGHT" by auto
    let ?f1 = "f[nat (y + py) := (f ! nat (y + py))[nat (x + px) := piece + 1]]"
    have wf1: "wf_field ?f1" by (rule wf_field_update[OF Cons.prems(1) inb])
    from Cons.IH[OF wf1 sub rest] obtain f' where
      f': "lock_cells ?f1 piece rot x y cs = Inr f'" "wf_field f'"
        "\<forall>X Y. 0 \<le> X \<and> X < FIELD_WIDTH \<and> 0 \<le> Y \<and> Y < FIELD_HEIGHT \<longrightarrow>
          f' ! nat Y ! nat X =
            (if (X - x, Y - y) \<in> set cs \<and> occupies_cell piece rot (X - x) (Y - y) = Inr True
             then piece + 1 else ?f1 ! nat Y ! nat X)" by blast
    have g: "py_get f (y + py) = Inr (f ! nat (y + py))"
      "int (length (f ! nat (y + py))) = FIELD_WIDTH"
      "int (length f) = FIELD_HEIGHT"
      using wf_field_get[OF Cons.prems(1) inb] Cons.prems(1) by (simp_all add: wf_field_def)
    have s1: "py_set (f ! nat (y + py)) (x + px) (piece + 1) = Inr ((f ! nat (y + py))[nat (x + px) := piece + 1])"
      using g inb by (simp add: py_set_nonneg)
    have s2: "py_set f (y + py) ((f ! nat (y + py))[nat (x + px) := piece + 1]) = Inr ?f1"
      using g inb by (simp add: py_set_nonneg)
    have run: "lock_cells f piece rot x y (c # cs) = Inr f'"
      using c occ True g(1) s1 s2 f'(1) by simp
    have "f' ! nat Y ! nat X =
            (if (X - x, Y - y) \<in> set (c # cs) \<and> occupies_cell piece rot (X - x) (Y - y) = Inr True
             then piece + 1 else f ! nat Y ! nat X)"
      if XY: "0 \<le> X" "X < FIELD_WIDTH" "0 \<le> Y" "Y < FIELD_HEIGHT" for X Y
    proof -
      have a: "f' ! nat Y ! nat X =
            (if (X - x, Y - y) \<in> set cs \<and> occupies_cell piece rot (X - x) (Y - y) = Inr True
             then piece + 1 else ?f1 ! nat Y ! nat X)" using f'(3) XY by blast
      have u: "?f1 ! nat Y ! nat X = (if X = x + px \<and> Y = y + py then piece + 1 else f ! nat Y ! nat X)"
        by (rule cell_update[OF Cons.prems(1) inb XY])
      have e: "(X - x, Y - y) = (px, py) \<longleftrightarrow> X = x + px \<and> Y = y + py" by auto
      show ?thesis
        unfolding a u using c occ True e by auto
    qed
    with run f'(2) show ?thesis by blast
  qed
qed

section \<open>Line clearing\<close>

lemma is_line_eq:
  assumes wf: "wf_field f" and y: "0 \<le> y" "y < FIELD_HEIGHT"
  shows "set xs \<subseteq> {0..<FIELD_WIDTH} \<Longrightarrow>
         is_line f y xs = Inr (\<forall>x \<in> set xs. f ! nat y ! nat x \<noteq> 0)"
proof (induction xs)
  case Nil
  then show ?case by simp
next
  case (Cons x xs)
  then have x: "0 \<le> x" "x < FIELD_WIDTH" by simp_all
  from wf_field_get(1,2)[OF wf x y] Cons show ?case by simp
qed

lemma is_line_full_row:
  assumes "wf_field f" "0 \<le> y" "y < FIELD_HEIGHT"
  shows "is_line f y (py_range 1 (FIELD_WIDTH - 1)) = Inr (full_row (f ! nat y))"
proof -
  have "set (py_range 1 (FIELD_WIDTH - 1)) \<subseteq> {0..<FIELD_WIDTH}"
    by (auto simp: py_range_def)
  from is_line_eq[OF assms this] show ?thesis
    by (simp add: full_row_def py_range_def)
qed

lemma collect_lines_eq:
  assumes wf: "wf_field f"
  shows "set ys \<subseteq> {0..<FIELD_HEIGHT} \<Longrightarrow>
         collect_lines f ys = Inr (filter (\<lambda>y. full_row (f ! nat y)) ys)"
proof (induction ys)
  case Nil
  then show ?case by simp
next
  case (Cons y ys)
  then have y: "0 \<le> y" "y < FIELD_HEIGHT" by simp_all
  from is_line_full_row[OF wf y] Cons show ?case by simp
qed

lemma upto_snoc: "[0..int n] = [0..int n - 1] @ [int n]"
  using upto_rec2[of 0 "int n"] by simp

lemma pop_rows_descending:
  "n \<le> length f \<Longrightarrow>
   pop_rows f (filter Q (rev [0..int n - 1])) =
     Inr (map (nth f) (filter (\<lambda>i. \<not> Q (int i)) [0..<n]) @ drop n f)"
proof (induction n arbitrary: f)
  case 0
  then show ?case by simp
next
  case (Suc n)
  have r: "rev [0..int (Suc n) - 1] = int n # rev [0..int n - 1]"
    using upto_snoc[of n] by simp
  show ?case
  proof (cases "Q (int n)")
    case True
    let ?f' = "take n f @ drop (Suc n) f"
    from Suc.prems have len: "n \<le> length ?f'" by simp
    have pop: "py_pop f (int n) = Inr ?f'"
      using Suc.prems by (simp add: py_pop_nonneg)
    have same: "map (nth ?f') (filter (\<lambda>i. \<not> Q (int i)) [0..<n]) =
                map (nth f) (filter (\<lambda>i. \<not> Q (int i)) [0..<n])"
      using Suc.prems by (auto simp: nth_append)
    have d: "drop n ?f' = drop (Suc n) f"
      using Suc.prems by simp
    show ?thesis
      unfolding r using True pop Suc.IH[OF len] same d by simp
  next
    case False
    from Suc.prems have len: "n \<le> length f" by simp
    have d: "f ! n # drop (Suc n) f = drop n f"
      using Suc.prems by (simp add: Cons_nth_drop_Suc)
    show ?thesis
      unfolding r using False Suc.IH[OF len] d by simp
  qed
qed

lemma map_nth_filter_take:
  "n \<le> length f \<Longrightarrow> map (nth f) (filter (\<lambda>i. P (f ! i)) [0..<n]) = filter P (take n f)"
proof (induction n)
  case 0
  then show ?case by simp
next
  case (Suc n)
  then show ?case by (simp add: take_Suc_conv_app_nth)
qed

lemma insert_rows_replicate: "insert_rows k f = replicate k new_row @ f"
proof (induction k arbitrary: f)
  case 0
  then show ?case by simp
next
  case (Suc k)
  then show ?case by (simp add: replicate_app_Cons_same)
qed

lemma filter_upto_nat:
  "filter (\<lambda>y. P (nat y)) (rev [0..int n - 1]) = map int (filter P (rev [0..<n]))"
proof (induction n)
  case 0
  then show ?case by simp
next
  case (Suc n)
  have r: "rev [0..int (Suc n) - 1] = int n # rev [0..int n - 1]"
    using upto_snoc[of n] by simp
  show ?case unfolding r using Suc by simp
qed

lemma check_lines_eq:
  assumes wf: "wf_field (field g)"
  shows "check_lines g =
           Inr (g\<lparr>score := score g + (if lines_full (field g) = 0 then 0
                                       else 2 ^ lines_full (field g) * 100),
                  field := replicate (lines_full (field g)) new_row @
                           filter (\<lambda>row. \<not> full_row row) (butlast (field g)) @
                           [last (field g)]\<rparr>)"
proof -
  let ?f = "field g"
  let ?Q = "\<lambda>y. full_row (?f ! nat y)"
  let ?ys = "rev [0..int 17 - 1]"
  have len: "length ?f = 18" using wf by (simp add: wf_field_def FIELD_HEIGHT_def)
  have ys: "py_range_down (FIELD_HEIGHT - 2) (- 1) = ?ys"
    by (simp add: py_range_down_def FIELD_HEIGHT_def)
  have "set ?ys \<subseteq> {0..<FIELD_HEIGHT}" by (auto simp: FIELD_HEIGHT_def)
  from collect_lines_eq[OF wf this]
  have col: "collect_lines ?f (py_range_down (FIELD_HEIGHT - 2) (- 1)) = Inr (filter ?Q ?ys)"
    by (simp only: ys)
  have bl: "butlast ?f = take 17 ?f" using len by (simp add: butlast_conv_take)
  have "filter ?Q ?ys = map int (filter (\<lambda>i. full_row (?f ! i)) (rev [0..<17]))"
    by (rule filter_upto_nat)
  then have "length (filter ?Q ?ys) = length (filter (\<lambda>i. full_row (?f ! i)) [0..<17])"
    by (simp add: rev_filter[symmetric])
  also have "\<dots> = length (map (nth ?f) (filter (\<lambda>i. full_row (?f ! i)) [0..<17]))" by simp
  also have "\<dots> = lines_full ?f"
    using map_nth_filter_take[of 17 ?f full_row] len by (simp add: lines_full_def bl)
  finally have k: "length (filter ?Q ?ys) = lines_full ?f" .
  have pop: "pop_rows ?f (filter ?Q ?ys) =
      Inr (filter (\<lambda>row. \<not> full_row row) (butlast ?f) @ [last ?f])"
  proof -
    have "pop_rows ?f (filter ?Q ?ys) =
       Inr (map (nth ?f) (filter (\<lambda>i. \<not> ?Q (int i)) [0..<17]) @ drop 17 ?f)"
      using pop_rows_descending[of 17 ?f ?Q] len by simp
    moreover have "map (nth ?f) (filter (\<lambda>i. \<not> ?Q (int i)) [0..<17]) =
        filter (\<lambda>row. \<not> full_row row) (take 17 ?f)"
      using map_nth_filter_take[of 17 ?f "\<lambda>row. \<not> full_row row"] len by simp
    moreover have "drop 17 ?f = [last ?f]"
      using len by (metis append_butlast_last_id append_take_drop_id bl length_0_conv same_append_eq zero_neq_numeral)
    ultimately show ?thesis by (simp add: bl)
  qed
  show ?thesis
  proof (cases "lines_full ?f = 0")
    case True
    with k have e: "filter ?Q ?ys = []" by simp
    from True have "filter full_row (butlast ?f) = []" by (simp add: lines_full_def)
    then have "filter (\<lambda>row. \<not> full_row row) (butlast ?f) = butlast ?f"
      by (simp add: filter_empty_conv)
    moreover have "?f \<noteq> []" using len by auto
    ultimately have "filter (\<lambda>row. \<not> full_row row) (butlast ?f) @ [last ?f] = ?f" by simp
    with True col e show ?thesis by (simp add: check_lines_def)
  next
    case False
    with k have ne: "filter ?Q ?ys \<noteq> []" by auto
    with False col pop k show ?thesis
      by (simp add: check_lines_def Let_def insert_rows_replicate push_bit_eq_mult)
  qed
qed

section \<open>The border\<close>

lemma fit_cell_free:
  assumes "wf_field f" "0 \<le> kind" "kind < 7" "does_piece_fit f kind r x y = Inr True"
    "px \<in> {0..3}" "py \<in> {0..3}" "occupies_cell kind r px py = Inr True"
  shows "cell_free f (x + px) (y + py)"
  using does_piece_fit_eq[OF assms(1-3), of r x y] assms(4-7) by auto

lemma fit_interior:
  assumes b: "bordered f" and k: "0 \<le> kind" "kind < 7"
    and fit: "does_piece_fit f kind r x y = Inr True"
    and p: "px \<in> {0..3}" "py \<in> {0..3}" and occ: "occupies_cell kind r px py = Inr True"
  shows "1 \<le> x + px \<and> x + px \<le> FIELD_WIDTH - 2 \<and> 0 \<le> y + py \<and> y + py \<le> FIELD_HEIGHT - 2"
proof -
  from b have wf: "wf_field f" by (simp add: bordered_def)
  from fit_cell_free[OF wf k fit p occ]
  have c: "0 \<le> x + px" "x + px < FIELD_WIDTH" "0 \<le> y + py" "y + py < FIELD_HEIGHT"
    "f ! nat (y + py) ! nat (x + px) = 0" by (simp_all add: cell_free_def)
  from b c(3,4) have l: "f ! nat (y + py) ! 0 = 9" "f ! nat (y + py) ! nat (FIELD_WIDTH - 1) = 9"
    by (simp_all add: bordered_def)
  from b c(1,2) have bot: "f ! nat (FIELD_HEIGHT - 1) ! nat (x + px) = 9"
    by (simp add: bordered_def)
  have "x + px \<noteq> 0" using l(1) c(5) by auto
  moreover have "x + px \<noteq> FIELD_WIDTH - 1" using l(2) c(5) by auto
  moreover have "y + py \<noteq> FIELD_HEIGHT - 1" using bot c(5) by auto
  ultimately show ?thesis using c by auto
qed

lemma lock_piece_ok:
  assumes wf: "wf_field (field g)" and k: "0 \<le> current_piece g" "current_piece g < 7"
    and fit: "fits_here g"
  shows "\<exists>f'. lock_piece g = Inr (g\<lparr>field := f'\<rparr>) \<and> wf_field f' \<and>
       (\<forall>X Y. 0 \<le> X \<and> X < FIELD_WIDTH \<and> 0 \<le> Y \<and> Y < FIELD_HEIGHT \<longrightarrow>
          f' ! nat Y ! nat X =
            (if X - current_x g \<in> {0..3} \<and> Y - current_y g \<in> {0..3} \<and>
                occupies_cell (current_piece g) (current_rotation g)
                  (X - current_x g) (Y - current_y g) = Inr True
             then current_piece g + 1 else field g ! nat Y ! nat X))"
proof -
  have sub: "set footprint \<subseteq> {0..3} \<times> {0..3}" by (simp add: set_footprint)
  have inb: "\<forall>(px, py) \<in> set footprint.
      occupies_cell (current_piece g) (current_rotation g) px py = Inr True \<longrightarrow>
        0 \<le> current_x g + px \<and> current_x g + px < FIELD_WIDTH \<and>
        0 \<le> current_y g + py \<and> current_y g + py < FIELD_HEIGHT"
    using fit_cell_free[OF wf k fit[unfolded fits_here_def]]
    by (auto simp: set_footprint cell_free_def)
  from lock_cells_ok[OF k wf sub inb] obtain f' where
    f': "lock_cells (field g) (current_piece g) (current_rotation g) (current_x g) (current_y g)
           footprint = Inr f'" "wf_field f'"
      "\<forall>X Y. 0 \<le> X \<and> X < FIELD_WIDTH \<and> 0 \<le> Y \<and> Y < FIELD_HEIGHT \<longrightarrow>
          f' ! nat Y ! nat X =
            (if (X - current_x g, Y - current_y g) \<in> set footprint \<and>
                occupies_cell (current_piece g) (current_rotation g)
                  (X - current_x g) (Y - current_y g) = Inr True
             then current_piece g + 1 else field g ! nat Y ! nat X)" by blast
  have "lock_piece g = Inr (g\<lparr>field := f'\<rparr>)" using f'(1) by (simp add: lock_piece_def)
  moreover from f'(3) have "\<forall>X Y. 0 \<le> X \<and> X < FIELD_WIDTH \<and> 0 \<le> Y \<and> Y < FIELD_HEIGHT \<longrightarrow>
          f' ! nat Y ! nat X =
            (if X - current_x g \<in> {0..3} \<and> Y - current_y g \<in> {0..3} \<and>
                occupies_cell (current_piece g) (current_rotation g)
                  (X - current_x g) (Y - current_y g) = Inr True
             then current_piece g + 1 else field g ! nat Y ! nat X)"
    by (simp add: set_footprint)
  ultimately show ?thesis using f'(2) by blast
qed

lemma lock_piece_bordered:
  assumes b: "bordered (field g)" and k: "0 \<le> current_piece g" "current_piece g < 7"
    and fit: "fits_here g"
  shows "\<exists>f'. lock_piece g = Inr (g\<lparr>field := f'\<rparr>) \<and> bordered f'"
proof -
  from b have wf: "wf_field (field g)" by (simp add: bordered_def)
  from lock_piece_ok[OF wf k fit] obtain f' where
    f': "lock_piece g = Inr (g\<lparr>field := f'\<rparr>)" "wf_field f'"
      "\<And>X Y. 0 \<le> X \<Longrightarrow> X < FIELD_WIDTH \<Longrightarrow> 0 \<le> Y \<Longrightarrow> Y < FIELD_HEIGHT \<Longrightarrow>
          f' ! nat Y ! nat X =
            (if X - current_x g \<in> {0..3} \<and> Y - current_y g \<in> {0..3} \<and>
                occupies_cell (current_piece g) (current_rotation g)
                  (X - current_x g) (Y - current_y g) = Inr True
             then current_piece g + 1 else field g ! nat Y ! nat X)" by blast
  have keep: "f' ! nat Y ! nat X = field g ! nat Y ! nat X"
    if XY: "0 \<le> X" "X < FIELD_WIDTH" "0 \<le> Y" "Y < FIELD_HEIGHT"
      and edge: "X = 0 \<or> X = FIELD_WIDTH - 1 \<or> Y = FIELD_HEIGHT - 1" for X Y
  proof -
    have "\<not> (X - current_x g \<in> {0..3} \<and> Y - current_y g \<in> {0..3} \<and>
                occupies_cell (current_piece g) (current_rotation g)
                  (X - current_x g) (Y - current_y g) = Inr True)"
    proof
      assume a: "X - current_x g \<in> {0..3} \<and> Y - current_y g \<in> {0..3} \<and>
                occupies_cell (current_piece g) (current_rotation g)
                  (X - current_x g) (Y - current_y g) = Inr True"
      from fit_interior[OF b k fit[unfolded fits_here_def], of "X - current_x g" "Y - current_y g"] a
      have "1 \<le> X \<and> X \<le> FIELD_WIDTH - 2 \<and> 0 \<le> Y \<and> Y \<le> FIELD_HEIGHT - 2" by simp
      with edge show False by auto
    qed
    with f'(3)[OF XY] show ?thesis by presburger
  qed
  have W: "0 < FIELD_WIDTH" "0 < FIELD_HEIGHT" by (simp_all add: FIELD_WIDTH_def FIELD_HEIGHT_def)
  have "bordered f'"
    unfolding bordered_def
  proof (intro conjI ballI)
    show "wf_field f'" by (rule f'(2))
  next
    fix y assume y: "y \<in> {0..<FIELD_HEIGHT}"
    with keep[of 0 y] W have "f' ! nat y ! nat 0 = field g ! nat y ! nat 0" by simp
    with b y show "f' ! nat y ! 0 = 9" by (simp add: bordered_def)
  next
    fix y assume y: "y \<in> {0..<FIELD_HEIGHT}"
    with keep[of "FIELD_WIDTH - 1" y] W
    have "f' ! nat y ! nat (FIELD_WIDTH - 1) = field g ! nat y ! nat (FIELD_WIDTH - 1)" by simp
    with b y show "f' ! nat y ! nat (FIELD_WIDTH - 1) = 9" by (simp add: bordered_def)
  next
    fix x assume x: "x \<in> {0..<FIELD_WIDTH}"
    with keep[of x "FIELD_HEIGHT - 1"] W
    have "f' ! nat (FIELD_HEIGHT - 1) ! nat x = field g ! nat (FIELD_HEIGHT - 1) ! nat x" by simp
    with b x show "f' ! nat (FIELD_HEIGHT - 1) ! nat x = 9" by (simp add: bordered_def)
  qed
  with f'(1) show ?thesis by blast
qed

lemma bordered_rows:
  "bordered f \<longleftrightarrow>
     length f = 18 \<and> (\<forall>row \<in> set f. length row = 12 \<and> row ! 0 = 9 \<and> row ! 11 = 9) \<and>
     (\<forall>x < 12. last f ! x = 9)"
proof
  assume b: "bordered f"
  then have len: "length f = 18" by (simp add: bordered_def wf_field_def FIELD_HEIGHT_def)
  have rows: "length row = 12 \<and> row ! 0 = 9 \<and> row ! 11 = 9" if "row \<in> set f" for row
  proof -
    from that obtain i where i: "i < length f" "row = f ! i" by (auto simp: in_set_conv_nth)
    with len have "int i \<in> {0..<FIELD_HEIGHT}" by (simp add: FIELD_HEIGHT_def)
    with b have "f ! nat (int i) ! 0 = 9 \<and> f ! nat (int i) ! nat (FIELD_WIDTH - 1) = 9"
      unfolding bordered_def by blast
    moreover from b that have "int (length row) = FIELD_WIDTH"
      by (simp add: bordered_def wf_field_def list_all_iff)
    ultimately show ?thesis using i by (simp add: FIELD_WIDTH_def)
  qed
  have "f \<noteq> []" using len by auto
  then have l: "last f = f ! nat (FIELD_HEIGHT - 1)"
    using len by (simp add: last_conv_nth FIELD_HEIGHT_def)
  have "last f ! x = 9" if "x < 12" for x
  proof -
    from that have "int x \<in> {0..<FIELD_WIDTH}" by (simp add: FIELD_WIDTH_def)
    with b have "f ! nat (FIELD_HEIGHT - 1) ! nat (int x) = 9" unfolding bordered_def by blast
    with l show ?thesis by simp
  qed
  with len rows show "length f = 18 \<and> (\<forall>row \<in> set f. length row = 12 \<and> row ! 0 = 9 \<and> row ! 11 = 9) \<and>
     (\<forall>x < 12. last f ! x = 9)" by blast
next
  assume a: "length f = 18 \<and> (\<forall>row \<in> set f. length row = 12 \<and> row ! 0 = 9 \<and> row ! 11 = 9) \<and>
     (\<forall>x < 12. last f ! x = 9)"
  then have len: "length f = 18" by simp
  have "f \<noteq> []" using len by auto
  then have l: "last f = f ! nat (FIELD_HEIGHT - 1)"
    using len by (simp add: last_conv_nth FIELD_HEIGHT_def)
  have wf: "wf_field f" using a by (simp add: wf_field_def list_all_iff FIELD_WIDTH_def FIELD_HEIGHT_def)
  show "bordered f"
    unfolding bordered_def
  proof (intro conjI ballI)
    show "wf_field f" by (rule wf)
  next
    fix y assume "y \<in> {0..<FIELD_HEIGHT}"
    with len have "nat y < length f" by (auto simp: FIELD_HEIGHT_def)
    then have "f ! nat y \<in> set f" by (rule nth_mem)
    with a show "f ! nat y ! 0 = 9" by blast
  next
    fix y assume "y \<in> {0..<FIELD_HEIGHT}"
    with len have "nat y < length f" by (auto simp: FIELD_HEIGHT_def)
    then have "f ! nat y \<in> set f" by (rule nth_mem)
    with a show "f ! nat y ! nat (FIELD_WIDTH - 1) = 9" by (simp add: FIELD_WIDTH_def)
  next
    fix x assume "x \<in> {0..<FIELD_WIDTH}"
    then have "nat x < 12" by (auto simp: FIELD_WIDTH_def)
    with a l show "f ! nat (FIELD_HEIGHT - 1) ! nat x = 9" by simp
  qed
qed

lemma new_row_eq: "new_row = 9 # replicate 10 0 @ [9]"
  by (simp add: new_row_def FIELD_WIDTH_def numeral_eq_Suc)

lemma cleared_length:
  "length f = 18 \<Longrightarrow>
   length (replicate (lines_full f) new_row @ filter (\<lambda>row. \<not> full_row row) (butlast f) @ [last f]) = 18"
  using sum_length_filter_compl[of full_row "butlast f"] by (simp add: lines_full_def)

lemma cleared_bordered:
  assumes b: "bordered f"
  shows "bordered (replicate (lines_full f) new_row @ filter (\<lambda>row. \<not> full_row row) (butlast f) @ [last f])"
    (is "bordered ?f'")
proof -
  from b have a: "length f = 18" "\<forall>row \<in> set f. length row = 12 \<and> row ! 0 = 9 \<and> row ! 11 = 9"
    "\<forall>x < 12. last f ! x = 9" by (simp_all add: bordered_rows)
  have ne: "f \<noteq> []" using a(1) by auto
  have nr: "length new_row = 12 \<and> new_row ! 0 = 9 \<and> new_row ! 11 = 9"
    by (simp add: new_row_eq nth_append)
  have "set ?f' \<subseteq> insert new_row (set f)"
    using ne by (auto dest: in_set_butlastD)
  with a(2) nr have "\<forall>row \<in> set ?f'. length row = 12 \<and> row ! 0 = 9 \<and> row ! 11 = 9" by blast
  moreover have "length ?f' = 18" by (rule cleared_length[OF a(1)])
  moreover have "last ?f' = last f" by simp
  ultimately show ?thesis using a(3) by (simp only: bordered_rows) 
qed

lemma check_lines_bordered:
  assumes b: "bordered (field g)"
  shows "\<exists>f' s'. check_lines g = Inr (g\<lparr>score := s', field := f'\<rparr>) \<and> bordered f'"
proof -
  from b have wf: "wf_field (field g)" by (simp add: bordered_def)
  from check_lines_eq[OF wf] cleared_bordered[OF b] show ?thesis by blast
qed

section \<open>Spawning, handlers and the gravity step\<close>

lemma does_piece_fit_total:
  assumes "wf_field f" "0 \<le> kind" "kind < 7"
  shows "\<exists>ok. does_piece_fit f kind r x y = Inr ok"
  using does_piece_fit_eq[OF assms] by blast

lemma spawn_x: "FIELD_WIDTH div 2 - 2 = 4"
  by (simp add: FIELD_WIDTH_def)

lemma new_piece_eq:
  assumes "wf_field (field g)" "0 \<le> kind" "kind < 7"
  shows "\<exists>ok. does_piece_fit (field g) kind 0 4 0 = Inr ok \<and>
          new_piece kind g =
            Inr (g\<lparr>current_piece := kind, current_rotation := 0, current_x := 4,
                   current_y := 0, game_over := game_over g \<or> \<not> ok\<rparr>)"
proof -
  from does_piece_fit_total[OF assms] obtain ok where
    ok: "does_piece_fit (field g) kind 0 4 0 = Inr ok" by blast
  then have "new_piece kind g =
            Inr (g\<lparr>current_piece := kind, current_rotation := 0, current_x := 4,
                   current_y := 0, game_over := game_over g \<or> \<not> ok\<rparr>)"
    by (cases ok) (simp_all add: new_piece_def Let_def spawn_x)
  with ok show ?thesis by blast
qed

lemma new_piece_inv:
  assumes b: "bordered (field g)" and k: "0 \<le> kind" "kind < 7"
  shows "\<exists>g'. new_piece kind g = Inr g' \<and> game_inv g'"
proof -
  from b have wf: "wf_field (field g)" by (simp add: bordered_def)
  from new_piece_eq[OF wf k] obtain ok where
    ok: "does_piece_fit (field g) kind 0 4 0 = Inr ok"
    "new_piece kind g =
            Inr (g\<lparr>current_piece := kind, current_rotation := 0, current_x := 4,
                   current_y := 0, game_over := game_over g \<or> \<not> ok\<rparr>)" by blast
  have "game_inv (g\<lparr>current_piece := kind, current_rotation := 0, current_x := 4,
                   current_y := 0, game_over := game_over g \<or> \<not> ok\<rparr>)"
    using b k ok(1) by (simp add: game_inv_def fits_here_def)
  with ok(2) show ?thesis by blast
qed

lemma handle_left_eq:
  assumes "wf_field (field g)" "0 \<le> current_piece g" "current_piece g < 7"
  shows "\<exists>ok. does_piece_fit (field g) (current_piece g) (current_rotation g)
               (current_x g - 1) (current_y g) = Inr ok \<and>
          handle_left g =
            Inr (if ok then g\<lparr>current_x := current_x g - 1\<rparr> else g)"
proof -
  from does_piece_fit_total[OF assms] obtain ok where
    ok: "does_piece_fit (field g) (current_piece g) (current_rotation g)
               (current_x g - 1) (current_y g) = Inr ok" by blast
  then have "handle_left g =
      Inr (if ok then g\<lparr>current_x := current_x g - 1\<rparr> else g)"
    by (simp add: handle_left_def)
  with ok show ?thesis by blast
qed

lemma handle_right_eq:
  assumes "wf_field (field g)" "0 \<le> current_piece g" "current_piece g < 7"
  shows "\<exists>ok. does_piece_fit (field g) (current_piece g) (current_rotation g)
               (current_x g + 1) (current_y g) = Inr ok \<and>
          handle_right g =
            Inr (if ok then g\<lparr>current_x := current_x g + 1\<rparr> else g)"
proof -
  from does_piece_fit_total[OF assms] obtain ok where
    ok: "does_piece_fit (field g) (current_piece g) (current_rotation g)
               (current_x g + 1) (current_y g) = Inr ok" by blast
  then have "handle_right g =
      Inr (if ok then g\<lparr>current_x := current_x g + 1\<rparr> else g)"
    by (simp add: handle_right_def)
  with ok show ?thesis by blast
qed

lemma handle_down_eq:
  assumes "wf_field (field g)" "0 \<le> current_piece g" "current_piece g < 7"
  shows "\<exists>ok. does_piece_fit (field g) (current_piece g) (current_rotation g)
               (current_x g) (current_y g + 1) = Inr ok \<and>
          handle_down g =
            Inr (if ok then g\<lparr>current_y := current_y g + 1, speed_counter := 0\<rparr> else g)"
proof -
  from does_piece_fit_total[OF assms] obtain ok where
    ok: "does_piece_fit (field g) (current_piece g) (current_rotation g)
               (current_x g) (current_y g + 1) = Inr ok" by blast
  then have "handle_down g =
      Inr (if ok then g\<lparr>current_y := current_y g + 1, speed_counter := 0\<rparr> else g)"
    by (simp add: handle_down_def)
  with ok show ?thesis by blast
qed

lemma handle_rotate_eq:
  assumes "wf_field (field g)" "0 \<le> current_piece g" "current_piece g < 7"
  shows "\<exists>ok. does_piece_fit (field g) (current_piece g) (current_rotation g + 1)
               (current_x g) (current_y g) = Inr ok \<and>
          handle_rotate g =
            Inr (if ok then g\<lparr>current_rotation := current_rotation g + 1\<rparr> else g)"
proof -
  from does_piece_fit_total[OF assms] obtain ok where
    ok: "does_piece_fit (field g) (current_piece g) (current_rotation g + 1)
               (current_x g) (current_y g) = Inr ok" by blast
  then have "handle_rotate g =
      Inr (if ok then g\<lparr>current_rotation := current_rotation g + 1\<rparr> else g)"
    by (simp add: handle_rotate_def)
  with ok show ?thesis by blast
qed

lemma game_inv_wf: "game_inv g \<Longrightarrow> wf_field (field g) \<and> 0 \<le> current_piece g \<and> current_piece g < 7"
  by (simp add: game_inv_def bordered_def)

lemma handle_left_inv:
  assumes inv: "game_inv g" and h: "handle_left g = Inr g'"
  shows "game_inv g'"
proof -
  from game_inv_wf[OF inv] have w: "wf_field (field g)" "0 \<le> current_piece g" "current_piece g < 7"
    by simp_all
  from handle_left_eq[OF w] obtain ok where
    ok: "does_piece_fit (field g) (current_piece g) (current_rotation g)
               (current_x g - 1) (current_y g) = Inr ok"
    "handle_left g =
       Inr (if ok then g\<lparr>current_x := current_x g - 1\<rparr> else g)"
    by blast
  from ok(2) h have g': "g' = (if ok then g\<lparr>current_x := current_x g - 1\<rparr> else g)"
    by simp
  show ?thesis
  proof (cases ok)
    case True
    with ok(1) have "fits_here (g\<lparr>current_x := current_x g - 1\<rparr>)"
      by (simp add: fits_here_def)
    with True g' inv show ?thesis by (simp add: game_inv_def)
  next
    case False
    with g' inv show ?thesis by simp
  qed
qed

lemma handle_right_inv:
  assumes inv: "game_inv g" and h: "handle_right g = Inr g'"
  shows "game_inv g'"
proof -
  from game_inv_wf[OF inv] have w: "wf_field (field g)" "0 \<le> current_piece g" "current_piece g < 7"
    by simp_all
  from handle_right_eq[OF w] obtain ok where
    ok: "does_piece_fit (field g) (current_piece g) (current_rotation g)
               (current_x g + 1) (current_y g) = Inr ok"
    "handle_right g =
       Inr (if ok then g\<lparr>current_x := current_x g + 1\<rparr> else g)"
    by blast
  from ok(2) h have g': "g' = (if ok then g\<lparr>current_x := current_x g + 1\<rparr> else g)"
    by simp
  show ?thesis
  proof (cases ok)
    case True
    with ok(1) have "fits_here (g\<lparr>current_x := current_x g + 1\<rparr>)"
      by (simp add: fits_here_def)
    with True g' inv show ?thesis by (simp add: game_inv_def)
  next
    case False
    with g' inv show ?thesis by simp
  qed
qed

lemma handle_down_inv:
  assumes inv: "game_inv g" and h: "handle_down g = Inr g'"
  shows "game_inv g'"
proof -
  from game_inv_wf[OF inv] have w: "wf_field (field g)" "0 \<le> current_piece g" "current_piece g < 7"
    by simp_all
  from handle_down_eq[OF w] obtain ok where
    ok: "does_piece_fit (field g) (current_piece g) (current_rotation g)
               (current_x g) (current_y g + 1) = Inr ok"
    "handle_down g =
       Inr (if ok then g\<lparr>current_y := current_y g + 1, speed_counter := 0\<rparr> else g)"
    by blast
  from ok(2) h have g': "g' = (if ok then g\<lparr>current_y := current_y g + 1, speed_counter := 0\<rparr> else g)"
    by simp
  show ?thesis
  proof (cases ok)
    case True
    with ok(1) have "fits_here (g\<lparr>current_y := current_y g + 1, speed_counter := 0\<rparr>)"
      by (simp add: fits_here_def)
    with True g' inv show ?thesis by (simp add: game_inv_def)
  next
    case False
    with g' inv show ?thesis by simp
  qed
qed

lemma handle_rotate_inv:
  assumes inv: "game_inv g" and h: "handle_rotate g = Inr g'"
  shows "game_inv g'"
proof -
  from game_inv_wf[OF inv] have w: "wf_field (field g)" "0 \<le> current_piece g" "current_piece g < 7"
    by simp_all
  from handle_rotate_eq[OF w] obtain ok where
    ok: "does_piece_fit (field g) (current_piece g) (current_rotation g + 1)
               (current_x g) (current_y g) = Inr ok"
    "handle_rotate g =
       Inr (if ok then g\<lparr>current_rotation := current_rotation g + 1\<rparr> else g)"
    by blast
  from ok(2) h have g': "g' = (if ok then g\<lparr>current_rotation := current_rotation g + 1\<rparr> else g)"
    by simp
  show ?thesis
  proof (cases ok)
    case True
    with ok(1) have "fits_here (g\<lparr>current_rotation := current_rotation g + 1\<rparr>)"
      by (simp add: fits_here_def)
    with True g' inv show ?thesis by (simp add: game_inv_def)
  next
    case False
    with g' inv show ?thesis by simp
  qed
qed

text \<open>The lock branch of a gravity step, as one equation.\<close>

lemma lock_branch:
  assumes inv: "game_inv g" and go: "\<not> game_over g" and k: "0 \<le> kind" "kind < 7"
  shows "\<exists>g1 g2 g3. lock_piece g = Inr g1 \<and> bordered (field g1) \<and>
           check_lines g1 = Inr g2 \<and> bordered (field g2) \<and>
           new_piece kind g2 = Inr g3 \<and> game_inv g3"
proof -
  from inv go have b: "bordered (field g)" and p: "0 \<le> current_piece g" "current_piece g < 7"
    and fit: "fits_here g" by (simp_all add: game_inv_def)
  from lock_piece_bordered[OF b p fit] obtain f1 where
    l: "lock_piece g = Inr (g\<lparr>field := f1\<rparr>)" "bordered f1" by blast
  then have b1: "bordered (field (g\<lparr>field := f1\<rparr>))" by simp
  from check_lines_bordered[OF b1] obtain f2 s2 where
    c: "check_lines (g\<lparr>field := f1\<rparr>) = Inr (g\<lparr>field := f1\<rparr>\<lparr>score := s2, field := f2\<rparr>)"
      "bordered f2" by blast
  then have b2: "bordered (field (g\<lparr>field := f1\<rparr>\<lparr>score := s2, field := f2\<rparr>))" by simp
  from new_piece_inv[OF b2 k] obtain g3 where
    n: "new_piece kind (g\<lparr>field := f1\<rparr>\<lparr>score := s2, field := f2\<rparr>) = Inr g3" "game_inv g3"
    by blast
  from l b1 c(1) b2 n show ?thesis by blast
qed

lemma force_down_branch_inv:
  assumes inv: "game_inv g" and go: "\<not> game_over g" and k: "0 \<le> kind" "kind < 7"
  shows "\<exists>g'. force_down_branch kind g = Inr g' \<and> game_inv g'"
proof -
  let ?g = "g\<lparr>speed_counter := 0\<rparr>"
  from inv go have inv0: "game_inv ?g" and go0: "\<not> game_over ?g"
    by (simp_all add: game_inv_def fits_here_def)
  from game_inv_wf[OF inv] does_piece_fit_total obtain ok where
    ok: "does_piece_fit (field g) (current_piece g) (current_rotation g) (current_x g)
           (current_y g + 1) = Inr ok" by blast
  show ?thesis
  proof (cases ok)
    case True
    with ok inv have "game_inv (?g\<lparr>current_y := current_y g + 1\<rparr>)"
      by (simp add: game_inv_def fits_here_def)
    with True ok show ?thesis by (simp add: force_down_branch_def)
  next
    case False
    from lock_branch[OF inv0 go0 k] obtain g1 g2 g3 where
      s: "lock_piece ?g = Inr g1" "check_lines g1 = Inr g2" "new_piece kind g2 = Inr g3"
        "game_inv g3" by blast
    have "game_inv (g3\<lparr>piece_count := piece_count g3 + 1\<rparr>)"
      "game_inv (g3\<lparr>piece_count := piece_count g3 + 1, speed := speed g3 - 1\<rparr>)"
      using s(4) by (simp_all add: game_inv_def fits_here_def)
    with False ok s show ?thesis
      by (simp add: force_down_branch_def Let_def)
  qed
qed

lemma game_loop_inv:
  assumes inv: "game_inv g" and go: "\<not> game_over g" and k: "0 \<le> kind" "kind < 7"
  shows "\<exists>g'. game_loop kind g = Inr g' \<and> game_inv g'"
proof -
  let ?g = "g\<lparr>speed_counter := speed_counter g + 1\<rparr>"
  from inv go have inv0: "game_inv ?g" and go0: "\<not> game_over ?g"
    by (simp_all add: game_inv_def fits_here_def)
  from force_down_branch_inv[OF inv0 go0 k] inv0 show ?thesis
    by (auto simp: game_loop_def Let_def)
qed

lemma initial_field_eq:
  "initial_field = replicate 17 (9 # replicate 10 0 @ [9]) @ [replicate 12 9]"
  by code_simp

lemma bordered_initial_field: "bordered initial_field"
  unfolding bordered_rows initial_field_eq
  by (simp add: nth_append nth_Cons' less_Suc_eq numeral_eq_Suc)

section \<open>Reachable states\<close>

lemma spawn_fits_initial:
  assumes "0 \<le> kind" "kind < 7"
  shows "does_piece_fit initial_field kind 0 4 0 = Inr True"
proof -
  from assms have "kind = 0 \<or> kind = 1 \<or> kind = 2 \<or> kind = 3 \<or> kind = 4 \<or> kind = 5 \<or> kind = 6"
    by presburger
  moreover have "does_piece_fit initial_field 0 0 4 0 = Inr True" by code_simp
  moreover have "does_piece_fit initial_field 1 0 4 0 = Inr True" by code_simp
  moreover have "does_piece_fit initial_field 2 0 4 0 = Inr True" by code_simp
  moreover have "does_piece_fit initial_field 3 0 4 0 = Inr True" by code_simp
  moreover have "does_piece_fit initial_field 4 0 4 0 = Inr True" by code_simp
  moreover have "does_piece_fit initial_field 5 0 4 0 = Inr True" by code_simp
  moreover have "does_piece_fit initial_field 6 0 4 0 = Inr True" by code_simp
  ultimately show ?thesis by blast
qed

lemma initialize_game_fresh:
  assumes "0 \<le> kind" "kind < 7"
  shows "initialize_game kind None = Inr (fresh_game kind)"
  using spawn_fits_initial[OF assms]
  by (simp add: initialize_game_def new_piece_def Let_def spawn_x fresh_game_def)

lemma game_inv_fresh:
  assumes "0 \<le> kind" "kind < 7"
  shows "game_inv (fresh_game kind)"
  using spawn_fits_initial[OF assms] assms bordered_initial_field
  by (simp add: game_inv_def fits_here_def fresh_game_def)

lemma initialize_game_inv:
  assumes s: "s = None \<or> (\<exists>g. s = Some g \<and> game_inv g)" and k: "0 \<le> kind" "kind < 7"
  shows "\<exists>g. initialize_game kind s = Inr g \<and> game_inv g"
proof (cases s)
  case None
  with initialize_game_fresh[OF k] game_inv_fresh[OF k] show ?thesis by simp
next
  case (Some g)
  with s show ?thesis by (simp add: initialize_game_def)
qed

lemma script_inv:
  assumes s: "s = None \<or> (\<exists>g. s = Some g \<and> game_inv g)"
    and k: "0 \<le> k1" "k1 < 7" "0 \<le> k2" "k2 < 7"
    and r: "script k1 k2 clicked s = Inr (s', buttons, e)"
  shows "s' = None \<or> (\<exists>g. s' = Some g \<and> game_inv g)"
proof -
  from initialize_game_inv[OF s k(1,2)] obtain g where
    g: "initialize_game k1 s = Inr g" "game_inv g" by blast
  show ?thesis
  proof (cases "game_over g")
    case True
    with g r show ?thesis by (cases clicked) (auto simp: script_def)
  next
    case False
    from game_loop_inv[OF g(2) False k(3,4)] obtain g' where
      g': "game_loop k2 g = Inr g'" "game_inv g'" by blast
    with g False r show ?thesis by (auto simp: script_def)
  qed
qed

lemma reachable_inv: "reachable s \<Longrightarrow> s = None \<or> (\<exists>g. s = Some g \<and> game_inv g)"
proof (induction rule: reachable.induct)
  case fresh
  then show ?case by simp
next
  case (run s k1 k2 clicked s' buttons e)
  from run.IH run.hyps(2-5) run.hyps(6) show ?case
    by (intro script_inv[of s k1 k2 clicked s' buttons e]) simp_all
next
  case (left g g')
  then show ?case using handle_left_inv by auto
next
  case (right g g')
  then show ?case using handle_right_inv by auto
next
  case (down g g')
  then show ?case using handle_down_inv by auto
next
  case (rotate g g')
  then show ?case using handle_rotate_inv by auto
qed

section \<open>What each operation changes\<close>

lemma check_lines_cleared:
  assumes "wf_field (field g)"
  shows "check_lines g =
           Inr (g\<lparr>score := score g + line_bonus (lines_full (field g)),
                  field := cleared_rows (field g)\<rparr>)"
  using check_lines_eq[OF assms]
  by (simp add: cleared_rows_def line_bonus_def push_bit_eq_mult)

lemma lock_piece_frame: "lock_piece g = Inr g' \<Longrightarrow> \<exists>f. g' = g\<lparr>field := f\<rparr>"
  by (cases "lock_cells (field g) (current_piece g) (current_rotation g) (current_x g)
        (current_y g) footprint") (auto simp: lock_piece_def)

lemma check_lines_frame: "check_lines g = Inr g' \<Longrightarrow> \<exists>s f. g' = g\<lparr>score := s, field := f\<rparr>"
proof -
  assume a: "check_lines g = Inr g'"
  show ?thesis
  proof (cases "collect_lines (field g) (py_range_down (FIELD_HEIGHT - 2) (- 1))")
    case (Inl e)
    with a show ?thesis by (simp add: check_lines_def)
  next
    case (Inr ls)
    show ?thesis
    proof (cases "ls = []")
      case True
      with Inr a have "g' = g" by (simp add: check_lines_def)
      then have "g' = g\<lparr>score := score g, field := field g\<rparr>" by simp
      then show ?thesis by blast
    next
      case False
      with Inr a show ?thesis
        by (cases "pop_rows (field g) ls") (auto simp: check_lines_def Let_def)
    qed
  qed
qed

lemma new_piece_frame:
  "new_piece kind g = Inr g' \<Longrightarrow>
   \<exists>go. g' = g\<lparr>current_piece := kind, current_rotation := 0, current_x := 4,
                 current_y := 0, game_over := go\<rparr>"
proof -
  assume a: "new_piece kind g = Inr g'"
  show ?thesis
  proof (cases "does_piece_fit (field g) kind 0 4 0")
    case (Inl e)
    with a show ?thesis by (simp add: new_piece_def Let_def spawn_x)
  next
    case (Inr ok)
    with a have "g' = g\<lparr>current_piece := kind, current_rotation := 0, current_x := 4,
                 current_y := 0, game_over := game_over g \<or> \<not> ok\<rparr>"
      by (cases ok) (auto simp: new_piece_def Let_def spawn_x)
    then show ?thesis by blast
  qed
qed

lemma force_down_branch_speed:
  assumes "force_down_branch kind g = Inr g'"
  shows "speed g' = (if (piece_count g' = piece_count g + 1 \<and> piece_count g' mod 10 = 0 \<and> 10 < speed g)
                      then speed g - 1 else speed g) \<and>
         (piece_count g' = piece_count g \<or> piece_count g' = piece_count g + 1)"
proof -
  let ?g = "g\<lparr>speed_counter := 0\<rparr>"
  show ?thesis
  proof (cases "does_piece_fit (field g) (current_piece g) (current_rotation g) (current_x g)
           (current_y g + 1)")
    case (Inl e)
    with assms show ?thesis by (simp add: force_down_branch_def)
  next
    case (Inr ok)
    show ?thesis
    proof (cases ok)
      case True
      with Inr assms have "g' = ?g\<lparr>current_y := current_y g + 1\<rparr>"
        by (simp add: force_down_branch_def)
      then show ?thesis by simp
    next
      case False
      with Inr assms obtain g1 g2 g3 where
        s: "lock_piece ?g = Inr g1" "check_lines g1 = Inr g2" "new_piece kind g2 = Inr g3" and
        g': "g' = (if (piece_count g3 + 1) mod 10 = 0 \<and> 10 < speed g3
               then g3\<lparr>piece_count := piece_count g3 + 1, speed := speed g3 - 1\<rparr>
               else g3\<lparr>piece_count := piece_count g3 + 1\<rparr>)"
        by (auto simp: force_down_branch_def Let_def split: sum.splits)
      from lock_piece_frame[OF s(1)] check_lines_frame[OF s(2)] new_piece_frame[OF s(3)]
      have "speed g3 = speed g \<and> piece_count g3 = piece_count g" by auto
      with g' show ?thesis by simp
    qed
  qed
qed

lemma gravity_steps_speed:
  "gravity_steps kinds g = Inr g' \<Longrightarrow> 10 \<le> speed g \<Longrightarrow> 10 \<le> speed g' \<and> speed g' \<le> speed g"
proof (induction kinds arbitrary: g)
  case Nil
  then show ?case by simp
next
  case (Cons kind kinds)
  from Cons.prems(1) obtain g1 where
    g1: "force_down_branch kind g = Inr g1" "gravity_steps kinds g1 = Inr g'"
    by (cases "force_down_branch kind g") simp_all
  from force_down_branch_speed[OF g1(1)] Cons.prems(2)
  have "10 \<le> speed g1 \<and> speed g1 \<le> speed g" by (simp split: if_splits)
  with Cons.IH[OF g1(2)] show ?case by simp
qed

lemma filter_single:
  assumes y0: "y0 < length xs" and P: "P (xs ! y0)"
    and others: "\<forall>y < length xs. y \<noteq> y0 \<longrightarrow> \<not> P (xs ! y)"
  shows "filter (\<lambda>r. \<not> P r) xs = take y0 xs @ drop (Suc y0) xs" and "length (filter P xs) = 1"
proof -
  have split: "xs = take y0 xs @ xs ! y0 # drop (Suc y0) xs"
    using y0 by (simp add: id_take_nth_drop[symmetric])
  have a: "\<forall>r \<in> set (take y0 xs). \<not> P r"
  proof
    fix r assume "r \<in> set (take y0 xs)"
    then obtain i where i: "i < length (take y0 xs)" "r = take y0 xs ! i"
      by (auto simp: in_set_conv_nth)
    then have "i < y0" "r = xs ! i" by simp_all
    with others y0 show "\<not> P r" by simp
  qed
  have b: "\<forall>r \<in> set (drop (Suc y0) xs). \<not> P r"
  proof
    fix r assume "r \<in> set (drop (Suc y0) xs)"
    then obtain i where i: "i < length (drop (Suc y0) xs)" "r = drop (Suc y0) xs ! i"
      by (auto simp: in_set_conv_nth)
    then have "Suc y0 + i < length xs" "r = xs ! (Suc y0 + i)" by simp_all
    with others show "\<not> P r" by simp
  qed
  have fa: "filter (\<lambda>r. \<not> P r) (take y0 xs) = take y0 xs" "filter P (take y0 xs) = []"
    using a by (simp_all add: filter_id_conv filter_empty_conv)
  have fb: "filter (\<lambda>r. \<not> P r) (drop (Suc y0) xs) = drop (Suc y0) xs"
    "filter P (drop (Suc y0) xs) = []"
    using b by (simp_all add: filter_id_conv filter_empty_conv)
  have "filter (\<lambda>r. \<not> P r) xs =
      filter (\<lambda>r. \<not> P r) (take y0 xs @ xs ! y0 # drop (Suc y0) xs)"
    using split by simp
  also have "\<dots> = take y0 xs @ drop (Suc y0) xs"
    using P fa(1) fb(1) by simp
  finally show "filter (\<lambda>r. \<not> P r) xs = take y0 xs @ drop (Suc y0) xs" .
  have "filter P xs = filter P (take y0 xs @ xs ! y0 # drop (Suc y0) xs)"
    using split by simp
  also have "\<dots> = [xs ! y0]" using P fa(2) fb(2) by simp
  finally show "length (filter P xs) = 1" by simp
qed

lemma cleared_rows_single:
  assumes len: "length f = 18" and y0: "y0 < 17" and full: "full_row (f ! y0)"
    and others: "\<forall>y < 17. y \<noteq> y0 \<longrightarrow> \<not> full_row (f ! y)"
  shows "lines_full f = 1" and "cleared_rows f = new_row # take y0 f @ drop (Suc y0) f"
proof -
  have bl: "butlast f = take 17 f" using len by (simp add: butlast_conv_take)
  have ne: "f \<noteq> []" using len by auto
  have l: "length (take 17 f) = 17" using len by simp
  have y0': "y0 < length (take 17 f)" using y0 l by simp
  have P: "full_row (take 17 f ! y0)" using full y0 by simp
  have o: "\<forall>y < length (take 17 f). y \<noteq> y0 \<longrightarrow> \<not> full_row (take 17 f ! y)"
    using others l by simp
  from filter_single[OF y0' P o]
  have fs: "filter (\<lambda>r. \<not> full_row r) (take 17 f) = take y0 (take 17 f) @ drop (Suc y0) (take 17 f)"
    "length (filter full_row (take 17 f)) = 1" by simp_all
  from fs(2) show k: "lines_full f = 1" by (simp add: lines_full_def bl)
  have t: "take y0 (take 17 f) = take y0 f" using y0 by (simp add: min_def)
  have "f = take 17 f @ [last f]" using bl ne by (metis append_butlast_last_id)
  then have "drop (Suc y0) f = drop (Suc y0) (take 17 f @ [last f])" by simp
  also have "\<dots> = drop (Suc y0) (take 17 f) @ [last f]" using y0 l by simp
  finally have d: "drop (Suc y0) (take 17 f) @ [last f] = drop (Suc y0) f" by simp
  show "cleared_rows f = new_row # take y0 f @ drop (Suc y0) f"
    using k fs(1) t d by (simp add: cleared_rows_def bl)
qed

lemma lock_branch_eq:
  assumes inv: "game_inv g" and go: "\<not> game_over g" and k: "0 \<le> kind" "kind < 7"
  shows "\<exists>f1 ok. lock_piece g = Inr (g\<lparr>field := f1\<rparr>) \<and> bordered f1 \<and>
           check_lines (g\<lparr>field := f1\<rparr>) =
             Inr (g\<lparr>field := cleared_rows f1, score := score g + line_bonus (lines_full f1)\<rparr>) \<and>
           bordered (cleared_rows f1) \<and>
           does_piece_fit (cleared_rows f1) kind 0 4 0 = Inr ok \<and>
           new_piece kind
               (g\<lparr>field := cleared_rows f1, score := score g + line_bonus (lines_full f1)\<rparr>) =
             Inr (g\<lparr>field := cleared_rows f1, score := score g + line_bonus (lines_full f1),
                    current_piece := kind, current_rotation := 0, current_x := 4,
                    current_y := 0, game_over := \<not> ok\<rparr>)"
proof -
  from inv go have b: "bordered (field g)" and p: "0 \<le> current_piece g" "current_piece g < 7"
    and fit: "fits_here g" by (simp_all add: game_inv_def)
  from lock_piece_bordered[OF b p fit] obtain f1 where
    l: "lock_piece g = Inr (g\<lparr>field := f1\<rparr>)" "bordered f1" by blast
  let ?g1 = "g\<lparr>field := f1\<rparr>"
  from l(2) have wf1: "wf_field (field ?g1)" by (simp add: bordered_def)
  from check_lines_cleared[OF wf1]
  have c: "check_lines ?g1 =
      Inr (g\<lparr>field := cleared_rows f1, score := score g + line_bonus (lines_full f1)\<rparr>)"
    by simp
  let ?g2 = "g\<lparr>field := cleared_rows f1, score := score g + line_bonus (lines_full f1)\<rparr>"
  have b2: "bordered (cleared_rows f1)"
    using cleared_bordered[OF l(2)] by (simp add: cleared_rows_def)
  then have wf2: "wf_field (field ?g2)" by (simp add: bordered_def)
  from new_piece_eq[OF wf2 k] go obtain ok where
    ok: "does_piece_fit (cleared_rows f1) kind 0 4 0 = Inr ok"
    "new_piece kind ?g2 =
       Inr (g\<lparr>field := cleared_rows f1, score := score g + line_bonus (lines_full f1),
              current_piece := kind, current_rotation := 0, current_x := 4,
              current_y := 0, game_over := \<not> ok\<rparr>)"
    by auto
  from l c b2 ok show ?thesis by blast
qed

lemma force_down_branch_eq:
  assumes inv: "game_inv g" and go: "\<not> game_over g" and k: "0 \<le> kind" "kind < 7"
  shows "\<exists>ok. does_piece_fit (field g) (current_piece g) (current_rotation g) (current_x g)
                 (current_y g + 1) = Inr ok \<and>
          (ok \<longrightarrow> force_down_branch kind g =
                    Inr (g\<lparr>speed_counter := 0, current_y := current_y g + 1\<rparr>)) \<and>
          (\<not> ok \<longrightarrow>
             (\<exists>f1 ok'.
                lock_piece (g\<lparr>speed_counter := 0\<rparr>) = Inr (g\<lparr>speed_counter := 0, field := f1\<rparr>) \<and>
                bordered f1 \<and>
                check_lines (g\<lparr>speed_counter := 0, field := f1\<rparr>) =
                  Inr (g\<lparr>speed_counter := 0, field := cleared_rows f1,
                         score := score g + line_bonus (lines_full f1)\<rparr>) \<and>
                does_piece_fit (cleared_rows f1) kind 0 4 0 = Inr ok' \<and>
                new_piece kind (g\<lparr>speed_counter := 0, field := cleared_rows f1,
                                  score := score g + line_bonus (lines_full f1)\<rparr>) =
                  Inr (g\<lparr>speed_counter := 0, field := cleared_rows f1,
                         score := score g + line_bonus (lines_full f1),
                         current_piece := kind, current_rotation := 0, current_x := 4,
                         current_y := 0, game_over := \<not> ok'\<rparr>) \<and>
                force_down_branch kind g =
                  Inr (g\<lparr>speed_counter := 0, field := cleared_rows f1,
                         score := score g + line_bonus (lines_full f1),
                         current_piece := kind, current_rotation := 0, current_x := 4,
                         current_y := 0, game_over := \<not> ok',
                         piece_count := piece_count g + 1,
                         speed := (if (piece_count g + 1) mod 10 = 0 \<and> 10 < speed g
                                   then speed g - 1 else speed g)\<rparr>)))"
proof -
  let ?g = "g\<lparr>speed_counter := 0\<rparr>"
  from inv go have inv0: "game_inv ?g" and go0: "\<not> game_over ?g"
    by (simp_all add: game_inv_def fits_here_def)
  from game_inv_wf[OF inv] does_piece_fit_total obtain ok where
    ok: "does_piece_fit (field g) (current_piece g) (current_rotation g) (current_x g)
           (current_y g + 1) = Inr ok" by blast
  show ?thesis
  proof (cases ok)
    case True
    with ok have "force_down_branch kind g =
        Inr (g\<lparr>speed_counter := 0, current_y := current_y g + 1\<rparr>)"
      by (simp add: force_down_branch_def)
    with True ok show ?thesis by blast
  next
    case False
    from lock_branch_eq[OF inv0 go0 k] obtain f1 ok' where
      s: "lock_piece ?g = Inr (?g\<lparr>field := f1\<rparr>)" "bordered f1"
        "check_lines (?g\<lparr>field := f1\<rparr>) =
           Inr (?g\<lparr>field := cleared_rows f1, score := score ?g + line_bonus (lines_full f1)\<rparr>)"
        "does_piece_fit (cleared_rows f1) kind 0 4 0 = Inr ok'"
        "new_piece kind
               (?g\<lparr>field := cleared_rows f1, score := score ?g + line_bonus (lines_full f1)\<rparr>) =
             Inr (?g\<lparr>field := cleared_rows f1, score := score ?g + line_bonus (lines_full f1),
                    current_piece := kind, current_rotation := 0, current_x := 4,
                    current_y := 0, game_over := \<not> ok'\<rparr>)"
      by blast
    have run: "force_down_branch kind g =
                  Inr (g\<lparr>speed_counter := 0, field := cleared_rows f1,
                         score := score g + line_bonus (lines_full f1),
                         current_piece := kind, current_rotation := 0, current_x := 4,
                         current_y := 0, game_over := \<not> ok',
                         piece_count := piece_count g + 1,
                         speed := (if (piece_count g + 1) mod 10 = 0 \<and> 10 < speed g
                                   then speed g - 1 else speed g)\<rparr>)"
      using ok False s(1,3,5) by (simp add: force_down_branch_def Let_def)
    from s run have "\<exists>f1 ok'.
                lock_piece (g\<lparr>speed_counter := 0\<rparr>) = Inr (g\<lparr>speed_counter := 0, field := f1\<rparr>) \<and>
                bordered f1 \<and>
                check_lines (g\<lparr>speed_counter := 0, field := f1\<rparr>) =
                  Inr (g\<lparr>speed_counter := 0, field := cleared_rows f1,
                         score := score g + line_bonus (lines_full f1)\<rparr>) \<and>
                does_piece_fit (cleared_rows f1) kind 0 4 0 = Inr ok' \<and>
                new_piece kind (g\<lparr>speed_counter := 0, field := cleared_rows f1,
                                  score := score g + line_bonus (lines_full f1)\<rparr>) =
                  Inr (g\<lparr>speed_counter := 0, field := cleared_rows f1,
                         score := score g + line_bonus (lines_full f1),
                         current_piece := kind, current_rotation := 0, current_x := 4,
                         current_y := 0, game_over := \<not> ok'\<rparr>) \<and>
                force_down_branch kind g =
                  Inr (g\<lparr>speed_counter := 0, field := cleared_rows f1,
                         score := score g + line_bonus (lines_full f1),
                         current_piece := kind, current_rotation := 0, current_x := 4,
                         current_y := 0, game_over := \<not> ok',
                         piece_count := piece_count g + 1,
                         speed := (if (piece_count g + 1) mod 10 = 0 \<and> 10 < speed g
                                   then speed g - 1 else speed g)\<rparr>)"
      by (intro exI[of _ f1] exI[of _ ok']) simp
    with False ok show ?thesis by blast
  qed
qed

section \<open>The claims\<close>

text \<open>
  Claim C1.  On a board of \<open>FIELD_HEIGHT\<close> rows of \<open>FIELD_WIDTH\<close> cells and for each of the
  seven piece kinds, any rotation and any origin, \<open>does_piece_fit\<close> returns (it raises
  nothing), and it returns true exactly when every cell of the 4x4 footprint that the
  rotated piece occupies lands on the board, at a cell holding 0.  It returns false as
  soon as one occupied cell is off the board or lands on a cell that is not 0.
\<close>

theorem does_piece_fit_iff:
  assumes "wf_field f" and "0 \<le> kind" and "kind < 7"
  shows "does_piece_fit f kind r x y =
           Inr (\<forall>px \<in> {0..3}. \<forall>py \<in> {0..3}.
                  occupies_cell kind r px py = Inr True \<longrightarrow>
                    0 \<le> x + px \<and> x + px < FIELD_WIDTH \<and> 0 \<le> y + py \<and> y + py < FIELD_HEIGHT \<and>
                    f ! nat (y + py) ! nat (x + px) = 0)"
  using does_piece_fit_eq[OF assms] by (simp add: cell_free_def)

theorem does_piece_fit_iff_witness:
  "wf_field initial_field \<and> (0::int) \<le> 3 \<and> (3::int) < 7 \<and>
   does_piece_fit initial_field 3 0 4 0 = Inr True \<and>
   occupies_cell 3 0 1 1 = Inr True \<and>
   initial_field ! nat (0 + 1) ! nat (4 + 1) = 0"
proof -
  have fit: "does_piece_fit initial_field 3 0 4 0 = Inr True"
    by code_simp
  have occ: "occupies_cell 3 0 1 1 = Inr True"
    by code_simp
  have "\<forall>px \<in> {0..3}. \<forall>py \<in> {0..3}.
      occupies_cell 3 0 px py = Inr True \<longrightarrow>
        0 \<le> 4 + px \<and> 4 + px < FIELD_WIDTH \<and> 0 \<le> 0 + py \<and> 0 + py < FIELD_HEIGHT \<and>
        initial_field ! nat (0 + py) ! nat (4 + px) = 0"
    using does_piece_fit_iff[OF wf_initial_field, of 3 0 4 0] fit by simp
  moreover have "(1::int) \<in> {0..3}" by simp
  ultimately have "occupies_cell 3 0 1 1 = Inr True \<longrightarrow>
      initial_field ! nat (0 + 1) ! nat (4 + 1) = 0"
    by blast
  with occ have cell: "initial_field ! nat (0 + 1) ! nat (4 + 1) = 0"
    by blast
  have "(0::int) \<le> 3" "(3::int) < 7" by simp_all
  with wf_initial_field fit occ cell show ?thesis by blast
qed

text \<open>
  Claim C2.  For local coordinates in \<open>[0,4)\<close> and any rotation \<open>r\<close>, \<open>rotate\<close> computes
  the formula selected by \<open>r mod 4\<close>: \<open>py*4+px\<close>, \<open>12+py-px*4\<close>, \<open>15-py*4-px\<close>,
  \<open>3-py+px*4\<close>; and for each of the seven kinds the occupancy test is the comparison of
  the character of the kind's pattern at that index with \<open>X\<close>.
\<close>

theorem rotate_formula:
  assumes "0 \<le> px" "px < 4" "0 \<le> py" "py < 4"
  shows "(r mod 4 = 0 \<longrightarrow> rotate_idx px py r = py * 4 + px) \<and>
         (r mod 4 = 1 \<longrightarrow> rotate_idx px py r = 12 + py - px * 4) \<and>
         (r mod 4 = 2 \<longrightarrow> rotate_idx px py r = 15 - py * 4 - px) \<and>
         (r mod 4 = 3 \<longrightarrow> rotate_idx px py r = 3 - py + px * 4) \<and>
         (0 \<le> kind \<and> kind < 7 \<longrightarrow>
            occupies_cell kind r px py =
              Inr (tetromino ! nat kind ! nat (rotate_idx px py r) = CHR ''X''))"
  using occupies_cell_eq[OF _ _ assms, of kind r]
  by (simp add: rotate_idx_cases)

theorem rotate_formula_witness:
  "rotate_idx 1 2 4 = 2 * 4 + 1 \<and> rotate_idx 1 2 5 = 12 + 2 - 1 * 4 \<and>
   rotate_idx 1 2 (- 2) = 15 - 2 * 4 - 1 \<and> rotate_idx 1 2 7 = 3 - 2 + 1 * 4 \<and>
   occupies_cell 3 5 1 2 = Inr (tetromino ! nat 3 ! nat (rotate_idx 1 2 5) = CHR ''X'')"
proof -
  have b: "(0::int) \<le> 1" "(1::int) < 4" "(0::int) \<le> 2" "(2::int) < 4" by simp_all
  have k: "(0::int) \<le> 3 \<and> (3::int) < 7" by simp
  have "rotate_idx 1 2 4 = 2 * 4 + 1"
    using rotate_formula[OF b, of 4 3] by simp
  moreover have "rotate_idx 1 2 5 = 12 + 2 - 1 * 4"
    using rotate_formula[OF b, of 5 3] by simp
  moreover have "rotate_idx 1 2 (- 2) = 15 - 2 * 4 - 1"
    using rotate_formula[OF b, of "- 2" 3] by simp
  moreover have "rotate_idx 1 2 7 = 3 - 2 + 1 * 4"
    using rotate_formula[OF b, of 7 3] by simp
  moreover have
    "occupies_cell 3 5 1 2 = Inr (tetromino ! nat 3 ! nat (rotate_idx 1 2 5) = CHR ''X'')"
    using rotate_formula[OF b, of 5 3] k by blast
  ultimately show ?thesis by blast
qed

lemma cleared_wf:
  assumes wf: "wf_field f"
  shows "wf_field (cleared_rows f)"
proof -
  from wf have len: "length f = 18" and rows: "\<forall>row \<in> set f. length row = 12"
    by (simp_all add: wf_field_def list_all_iff FIELD_WIDTH_def FIELD_HEIGHT_def)
  have ne: "f \<noteq> []" using len by auto
  have "set (cleared_rows f) \<subseteq> insert new_row (set f)"
    using ne by (auto simp: cleared_rows_def dest: in_set_butlastD)
  moreover have "length new_row = 12" by (simp add: new_row_eq)
  ultimately have "\<forall>row \<in> set (cleared_rows f). length row = 12" using rows by auto
  moreover have "length (cleared_rows f) = 18"
    using cleared_length[OF len] by (simp add: cleared_rows_def)
  ultimately show ?thesis
    by (simp add: wf_field_def list_all_iff FIELD_WIDTH_def FIELD_HEIGHT_def)
qed

lemma is_line_interior:
  assumes "wf_field f" "y \<in> {0..FIELD_HEIGHT - 2}"
  shows "is_line f y (py_range 1 (FIELD_WIDTH - 1)) =
           Inr (\<forall>x \<in> {1..FIELD_WIDTH - 2}. f ! nat y ! nat x \<noteq> 0)"
proof -
  from assms(2) have y: "0 \<le> y" "y < FIELD_HEIGHT" by simp_all
  from is_line_full_row[OF assms(1) y] show ?thesis by (simp add: full_row_def)
qed

lemma one_line_field_facts:
  "wf_field one_line_field"
  "full_row (one_line_field ! 16)"
  "\<forall>y < 17. y \<noteq> 16 \<longrightarrow> \<not> full_row (one_line_field ! y)"
  "new_row # take 16 one_line_field @ drop (Suc 16) one_line_field =
     replicate 16 (9 # replicate 10 0 @ [9]) @
     [9 # replicate 5 0 @ [2] @ replicate 4 0 @ [9], replicate 12 9]"
proof -
  show "wf_field one_line_field" by code_simp
  show "full_row (one_line_field ! 16)" by code_simp
  have "\<forall>y \<in> set [0..<17]. y \<noteq> 16 \<longrightarrow> \<not> full_row (one_line_field ! y)" by code_simp
  then show "\<forall>y < 17. y \<noteq> 16 \<longrightarrow> \<not> full_row (one_line_field ! y)" by simp
  show "new_row # take 16 one_line_field @ drop (Suc 16) one_line_field =
     replicate 16 (9 # replicate 10 0 @ [9]) @
     [9 # replicate 5 0 @ [2] @ replicate 4 0 @ [9], replicate 12 9]" by code_simp
qed

text \<open>
  Claim C4.  On a board of the fixed size \<open>check_lines\<close> returns.  The scan of a row \<open>y\<close>
  in \<open>[0, H-2]\<close> answers whether every interior cell \<open>x\<close> in \<open>[1, W-2]\<close> is non-zero.  The
  new board is the old one with all full rows above the bottom row removed and as many
  fresh rows (9, ten 0s, 9) put on top; the bottom row stays last and the height is the
  same.  With exactly one full row \<open>y0\<close>, the new board is a fresh row, then the rows
  above \<open>y0\<close> (each one lower than before), then the rows below \<open>y0\<close>.
\<close>

theorem check_lines_clears:
  assumes "wf_field (field g)"
  shows "(\<forall>y \<in> {0..FIELD_HEIGHT - 2}.
            is_line (field g) y (py_range 1 (FIELD_WIDTH - 1)) =
              Inr (\<forall>x \<in> {1..FIELD_WIDTH - 2}. field g ! nat y ! nat x \<noteq> 0)) \<and>
         (\<exists>g'. check_lines g = Inr g' \<and>
            field g' =
              replicate (lines_full (field g)) new_row @
              filter (\<lambda>row. \<not> full_row row) (butlast (field g)) @ [last (field g)] \<and>
            length (field g') = length (field g) \<and> last (field g') = last (field g) \<and>
            wf_field (field g') \<and>
            (\<forall>y0 < 17.
               full_row (field g ! y0) \<and> (\<forall>y < 17. y \<noteq> y0 \<longrightarrow> \<not> full_row (field g ! y)) \<longrightarrow>
               field g' = new_row # take y0 (field g) @ drop (Suc y0) (field g))) \<and>
         new_row = 9 # replicate 10 0 @ [9]"
proof -
  let ?f = "field g"
  let ?g' = "g\<lparr>score := score g + line_bonus (lines_full ?f), field := cleared_rows ?f\<rparr>"
  from assms have len: "length ?f = 18" by (simp add: wf_field_def FIELD_HEIGHT_def)
  have scan: "\<forall>y \<in> {0..FIELD_HEIGHT - 2}.
            is_line ?f y (py_range 1 (FIELD_WIDTH - 1)) =
              Inr (\<forall>x \<in> {1..FIELD_WIDTH - 2}. ?f ! nat y ! nat x \<noteq> 0)"
    using is_line_interior[OF assms] by blast
  have run: "check_lines g = Inr ?g'" by (rule check_lines_cleared[OF assms])
  have f': "field ?g' =
              replicate (lines_full ?f) new_row @
              filter (\<lambda>row. \<not> full_row row) (butlast ?f) @ [last ?f]"
    by (simp add: cleared_rows_def)
  have l: "length (field ?g') = length ?f"
    using cleared_length[OF len] len by (simp add: cleared_rows_def)
  have la: "last (field ?g') = last ?f" by (simp add: cleared_rows_def)
  have wf': "wf_field (field ?g')" using cleared_wf[OF assms] by simp
  have single: "\<forall>y0 < 17.
               full_row (?f ! y0) \<and> (\<forall>y < 17. y \<noteq> y0 \<longrightarrow> \<not> full_row (?f ! y)) \<longrightarrow>
               field ?g' = new_row # take y0 ?f @ drop (Suc y0) ?f"
    using cleared_rows_single(2)[OF len] by simp
  from run f' l la wf' single
  have "\<exists>g'. check_lines g = Inr g' \<and>
            field g' =
              replicate (lines_full ?f) new_row @
              filter (\<lambda>row. \<not> full_row row) (butlast ?f) @ [last ?f] \<and>
            length (field g') = length ?f \<and> last (field g') = last ?f \<and>
            wf_field (field g') \<and>
            (\<forall>y0 < 17.
               full_row (?f ! y0) \<and> (\<forall>y < 17. y \<noteq> y0 \<longrightarrow> \<not> full_row (?f ! y)) \<longrightarrow>
               field g' = new_row # take y0 ?f @ drop (Suc y0) ?f)"
    by (intro exI[of _ ?g'] conjI)
  with scan new_row_eq show ?thesis by blast
qed

theorem check_lines_clears_witness:
  "wf_field (field ((fresh_game 3)\<lparr>field := one_line_field\<rparr>)) \<and>
   (\<exists>g'. check_lines ((fresh_game 3)\<lparr>field := one_line_field\<rparr>) = Inr g' \<and>
      length (field g') = 18 \<and>
      field g' =
        replicate 16 (9 # replicate 10 0 @ [9]) @
        [9 # replicate 5 0 @ [2] @ replicate 4 0 @ [9], replicate 12 9])"
proof -
  let ?g = "(fresh_game 3)\<lparr>field := one_line_field\<rparr>"
  have wf: "wf_field (field ?g)" using one_line_field_facts(1) by simp
  from check_lines_clears[OF wf] obtain g' where
    r: "check_lines ?g = Inr g'" and l: "length (field g') = length (field ?g)"
    and s: "\<forall>y0 < 17.
               full_row (field ?g ! y0) \<and> (\<forall>y < 17. y \<noteq> y0 \<longrightarrow> \<not> full_row (field ?g ! y)) \<longrightarrow>
               field g' = new_row # take y0 (field ?g) @ drop (Suc y0) (field ?g)"
    by blast
  have "field g' = new_row # take 16 one_line_field @ drop (Suc 16) one_line_field"
    using s[rule_format, of 16] one_line_field_facts(2,3) by simp
  with one_line_field_facts(4) have f: "field g' =
        replicate 16 (9 # replicate 10 0 @ [9]) @
        [9 # replicate 5 0 @ [2] @ replicate 4 0 @ [9], replicate 12 9]" by simp
  then have "length (field g') = 18" by simp
  with wf r f show ?thesis by blast
qed

lemma line_bonus_values:
  "line_bonus 0 = 0" "line_bonus 1 = 200" "line_bonus 2 = 400" "line_bonus 3 = 800"
  "line_bonus 4 = 1600"
  by (simp_all add: line_bonus_def push_bit_eq_mult)

lemma two_gap_game_facts:
  "game_inv two_gap_game"
  "\<not> game_over two_gap_game"
  "does_piece_fit (field two_gap_game) (current_piece two_gap_game)
     (current_rotation two_gap_game) (current_x two_gap_game) (current_y two_gap_game + 1) =
   Inr False"
  "map_sum id (\<lambda>g. lines_full (field g)) (lock_piece (two_gap_game\<lparr>speed_counter := 0\<rparr>)) = Inr 2"
  "score two_gap_game = 700"
  by code_simp+

text \<open>
  Claim C5.  Line clearing that finds \<open>k\<close> full rows adds \<open>(1 << k) * 100\<close> to the score when
  \<open>k > 0\<close> and nothing when \<open>k = 0\<close>: 0, 200, 400, 800, 1600 for \<open>k\<close> from 0 to 4.  Locking
  and spawning leave the score alone, so a gravity step that moves the piece down keeps
  the score and one that locks the piece adds exactly the bonus of the rows the locked
  board has full.
\<close>

theorem score_bonus:
  assumes "wf_field (field g)"
  shows "(\<exists>g'. check_lines g = Inr g' \<and>
            score g' = score g + (if lines_full (field g) = 0 then 0
                                  else push_bit (lines_full (field g)) 1 * 100) \<and>
            score g' = score g + line_bonus (lines_full (field g))) \<and>
         line_bonus 0 = 0 \<and> line_bonus 1 = 200 \<and> line_bonus 2 = 400 \<and>
         line_bonus 3 = 800 \<and> line_bonus 4 = 1600 \<and>
         (\<forall>g1. lock_piece g = Inr g1 \<longrightarrow> score g1 = score g) \<and>
         (\<forall>g3. new_piece kind g = Inr g3 \<longrightarrow> score g3 = score g) \<and>
         (game_inv g \<and> \<not> game_over g \<and> 0 \<le> kind \<and> kind < 7 \<longrightarrow>
            (\<exists>ok g'.
               does_piece_fit (field g) (current_piece g) (current_rotation g) (current_x g)
                 (current_y g + 1) = Inr ok \<and>
               force_down_branch kind g = Inr g' \<and>
               (ok \<longrightarrow> score g' = score g) \<and>
               (\<not> ok \<longrightarrow>
                  (\<exists>g1. lock_piece (g\<lparr>speed_counter := 0\<rparr>) = Inr g1 \<and>
                     score g' = score g + line_bonus (lines_full (field g1))))))"
proof -
  have cl: "\<exists>g'. check_lines g = Inr g' \<and>
            score g' = score g + (if lines_full (field g) = 0 then 0
                                  else push_bit (lines_full (field g)) 1 * 100) \<and>
            score g' = score g + line_bonus (lines_full (field g))"
    using check_lines_cleared[OF assms] by (simp add: line_bonus_def)
  have lk: "\<forall>g1. lock_piece g = Inr g1 \<longrightarrow> score g1 = score g"
    using lock_piece_frame by fastforce
  have np: "\<forall>g3. new_piece kind g = Inr g3 \<longrightarrow> score g3 = score g"
    using new_piece_frame by fastforce
  have st: "\<exists>ok g'.
               does_piece_fit (field g) (current_piece g) (current_rotation g) (current_x g)
                 (current_y g + 1) = Inr ok \<and>
               force_down_branch kind g = Inr g' \<and>
               (ok \<longrightarrow> score g' = score g) \<and>
               (\<not> ok \<longrightarrow>
                  (\<exists>g1. lock_piece (g\<lparr>speed_counter := 0\<rparr>) = Inr g1 \<and>
                     score g' = score g + line_bonus (lines_full (field g1))))"
    if h: "game_inv g" "\<not> game_over g" "0 \<le> kind" "kind < 7"
  proof -
    from force_down_branch_eq[OF h] obtain ok where
      ok: "does_piece_fit (field g) (current_piece g) (current_rotation g) (current_x g)
             (current_y g + 1) = Inr ok"
      and yes: "ok \<Longrightarrow> force_down_branch kind g =
                    Inr (g\<lparr>speed_counter := 0, current_y := current_y g + 1\<rparr>)"
      and no: "\<not> ok \<Longrightarrow> \<exists>f1 ok'.
                lock_piece (g\<lparr>speed_counter := 0\<rparr>) = Inr (g\<lparr>speed_counter := 0, field := f1\<rparr>) \<and>
                force_down_branch kind g =
                  Inr (g\<lparr>speed_counter := 0, field := cleared_rows f1,
                         score := score g + line_bonus (lines_full f1),
                         current_piece := kind, current_rotation := 0, current_x := 4,
                         current_y := 0, game_over := \<not> ok',
                         piece_count := piece_count g + 1,
                         speed := (if (piece_count g + 1) mod 10 = 0 \<and> 10 < speed g
                                   then speed g - 1 else speed g)\<rparr>)"
      by blast
    show ?thesis
    proof (cases ok)
      case True
      let ?g' = "g\<lparr>speed_counter := 0, current_y := current_y g + 1\<rparr>"
      have "score ?g' = score g" by simp
      with yes[OF True] ok True show ?thesis by blast
    next
      case False
      from no[OF False] obtain f1 ok' where
        l: "lock_piece (g\<lparr>speed_counter := 0\<rparr>) = Inr (g\<lparr>speed_counter := 0, field := f1\<rparr>)"
        and r: "force_down_branch kind g =
                  Inr (g\<lparr>speed_counter := 0, field := cleared_rows f1,
                         score := score g + line_bonus (lines_full f1),
                         current_piece := kind, current_rotation := 0, current_x := 4,
                         current_y := 0, game_over := \<not> ok',
                         piece_count := piece_count g + 1,
                         speed := (if (piece_count g + 1) mod 10 = 0 \<and> 10 < speed g
                                   then speed g - 1 else speed g)\<rparr>)"
        by blast
      let ?g1 = "g\<lparr>speed_counter := 0, field := f1\<rparr>"
      let ?g' = "g\<lparr>speed_counter := 0, field := cleared_rows f1,
                         score := score g + line_bonus (lines_full f1),
                         current_piece := kind, current_rotation := 0, current_x := 4,
                         current_y := 0, game_over := \<not> ok',
                         piece_count := piece_count g + 1,
                         speed := (if (piece_count g + 1) mod 10 = 0 \<and> 10 < speed g
                                   then speed g - 1 else speed g)\<rparr>"
      have "score ?g' = score g + line_bonus (lines_full (field ?g1))" by simp
      with l have "\<exists>g1. lock_piece (g\<lparr>speed_counter := 0\<rparr>) = Inr g1 \<and>
                     score ?g' = score g + line_bonus (lines_full (field g1))" by blast
      with r ok False show ?thesis by blast
    qed
  qed
  from cl lk np st line_bonus_values show ?thesis by blast
qed

theorem score_bonus_witness:
  "wf_field (field two_gap_game) \<and> game_inv two_gap_game \<and> \<not> game_over two_gap_game \<and>
   score two_gap_game = 700 \<and>
   (\<exists>g'. force_down_branch 0 two_gap_game = Inr g' \<and> score g' = 1100)"
proof -
  have k: "(0::int) \<le> 0" "(0::int) < 7" by simp_all
  have wf: "wf_field (field two_gap_game)"
    using game_inv_wf[OF two_gap_game_facts(1)] by simp
  from score_bonus[OF wf, of 0] two_gap_game_facts(1,2) k obtain ok g' where
    f: "does_piece_fit (field two_gap_game) (current_piece two_gap_game)
         (current_rotation two_gap_game) (current_x two_gap_game)
         (current_y two_gap_game + 1) = Inr ok"
    and r: "force_down_branch 0 two_gap_game = Inr g'"
    and n: "\<not> ok \<longrightarrow>
              (\<exists>g1. lock_piece (two_gap_game\<lparr>speed_counter := 0\<rparr>) = Inr g1 \<and>
                 score g' = score two_gap_game + line_bonus (lines_full (field g1)))"
    by blast
  from f two_gap_game_facts(3) have "\<not> ok" by simp
  with n obtain g1 where
    g1: "lock_piece (two_gap_game\<lparr>speed_counter := 0\<rparr>) = Inr g1"
      "score g' = score two_gap_game + line_bonus (lines_full (field g1))" by blast
  from g1(1) two_gap_game_facts(4) have "lines_full (field g1) = 2" by simp
  with g1(2) two_gap_game_facts(5) line_bonus_values(3) have "score g' = 1100" by simp
  with r wf two_gap_game_facts(1,2,5) show ?thesis by blast
qed

lemma low_game_facts:
  "game_inv low_game"
  "\<not> game_over low_game"
  "does_piece_fit (field low_game) (current_piece low_game) (current_rotation low_game)
     (current_x low_game) (current_y low_game + 1) = Inr False"
  "lock_piece (low_game\<lparr>speed_counter := 0\<rparr>) =
     Inr (low_game\<lparr>speed_counter := 0, field := low_locked_field\<rparr>)"
  "replicate (lines_full low_locked_field) new_row @
     filter (\<lambda>row. \<not> full_row row) (butlast low_locked_field) @ [last low_locked_field] =
   low_locked_field"
  "lines_full low_locked_field = 0"
  "does_piece_fit low_locked_field 0 0 4 0 = Inr True"
  by code_simp+

lemma two_gap_lock_facts:
  "lock_piece (two_gap_game\<lparr>speed_counter := 0\<rparr>) =
     Inr (two_gap_game\<lparr>speed_counter := 0, field := two_gap_locked_field\<rparr>)"
  "replicate (lines_full two_gap_locked_field) new_row @
     filter (\<lambda>row. \<not> full_row row) (butlast two_gap_locked_field) @
     [last two_gap_locked_field] =
   initial_field"
  "lines_full two_gap_locked_field = 2"
  "does_piece_fit initial_field 0 0 4 0 = Inr True"
  by code_simp+

text \<open>
  Claim C3.  In a state that satisfies the invariant (as every reachable state does, by
  \<open>reachable_inv\<close>) and is not game over, one gravity step (the body of
  \<open>if force_down:\<close>) returns.  If the active piece fits one row lower, the row grows by 1
  and only the fall timer is reset besides: board, score, speed and piece count stay.
  Otherwise the step returns this state: the board is the old one with \<open>piece + 1\<close>
  written into exactly the cells the piece occupies, then its full rows above the bottom
  row removed and as many fresh rows put on top; the score has grown by the bonus of the
  rows removed; the active piece is the drawn kind at rotation 0, \<open>x = 4\<close>, \<open>y = 0\<close>, and
  \<open>game_over\<close> is set exactly when that piece does not fit there; the piece count has
  grown by 1; the speed has dropped by exactly 1 when the new count is a multiple of 10
  and the speed was above 10.  A speed of at least 10 never falls below 10, and a speed
  of 10 stays 10 through any number of further steps.
\<close>

theorem gravity_step:
  assumes "game_inv g" and "\<not> game_over g" and "0 \<le> kind" and "kind < 7"
  shows "\<exists>ok g'.
     does_piece_fit (field g) (current_piece g) (current_rotation g) (current_x g)
       (current_y g + 1) = Inr ok \<and>
     force_down_branch kind g = Inr g' \<and>
     (ok \<longrightarrow> g' = g\<lparr>speed_counter := 0, current_y := current_y g + 1\<rparr>) \<and>
     (\<not> ok \<longrightarrow>
        (\<exists>f1 ok'.
           lock_piece (g\<lparr>speed_counter := 0\<rparr>) = Inr (g\<lparr>speed_counter := 0, field := f1\<rparr>) \<and>
           wf_field f1 \<and>
           (\<forall>X Y. 0 \<le> X \<and> X < FIELD_WIDTH \<and> 0 \<le> Y \<and> Y < FIELD_HEIGHT \<longrightarrow>
              f1 ! nat Y ! nat X =
                (if X - current_x g \<in> {0..3} \<and> Y - current_y g \<in> {0..3} \<and>
                    occupies_cell (current_piece g) (current_rotation g)
                      (X - current_x g) (Y - current_y g) = Inr True
                 then current_piece g + 1 else field g ! nat Y ! nat X)) \<and>
           check_lines (g\<lparr>speed_counter := 0, field := f1\<rparr>) =
             Inr (g\<lparr>speed_counter := 0,
                    field := replicate (lines_full f1) new_row @
                             filter (\<lambda>row. \<not> full_row row) (butlast f1) @ [last f1],
                    score := score g + (if lines_full f1 = 0 then 0
                                        else push_bit (lines_full f1) 1 * 100)\<rparr>) \<and>
           does_piece_fit
               (replicate (lines_full f1) new_row @
                filter (\<lambda>row. \<not> full_row row) (butlast f1) @ [last f1]) kind 0 4 0 = Inr ok' \<and>
           new_piece kind
               (g\<lparr>speed_counter := 0,
                  field := replicate (lines_full f1) new_row @
                           filter (\<lambda>row. \<not> full_row row) (butlast f1) @ [last f1],
                  score := score g + (if lines_full f1 = 0 then 0
                                      else push_bit (lines_full f1) 1 * 100)\<rparr>) =
             Inr (g\<lparr>speed_counter := 0,
                    field := replicate (lines_full f1) new_row @
                             filter (\<lambda>row. \<not> full_row row) (butlast f1) @ [last f1],
                    score := score g + (if lines_full f1 = 0 then 0
                                        else push_bit (lines_full f1) 1 * 100),
                    current_piece := kind, current_rotation := 0, current_x := 4,
                    current_y := 0, game_over := \<not> ok'\<rparr>) \<and>
           g' = g\<lparr>speed_counter := 0,
                   field := replicate (lines_full f1) new_row @
                            filter (\<lambda>row. \<not> full_row row) (butlast f1) @ [last f1],
                   score := score g + (if lines_full f1 = 0 then 0
                                       else push_bit (lines_full f1) 1 * 100),
                   current_piece := kind, current_rotation := 0, current_x := 4,
                   current_y := 0, game_over := \<not> ok',
                   piece_count := piece_count g + 1,
                   speed := (if (piece_count g + 1) mod 10 = 0 \<and> 10 < speed g
                             then speed g - 1 else speed g)\<rparr>)) \<and>
     (10 \<le> speed g \<longrightarrow> 10 \<le> speed g') \<and>
     (\<forall>kinds g''. speed g = 10 \<and> gravity_steps kinds g = Inr g'' \<longrightarrow> speed g'' = 10)"
proof -
  let ?g0 = "g\<lparr>speed_counter := 0\<rparr>"
  from force_down_branch_eq[OF assms] obtain ok where
    ok: "does_piece_fit (field g) (current_piece g) (current_rotation g) (current_x g)
           (current_y g + 1) = Inr ok"
    and yes: "ok \<Longrightarrow> force_down_branch kind g =
                    Inr (g\<lparr>speed_counter := 0, current_y := current_y g + 1\<rparr>)"
    and no: "\<not> ok \<Longrightarrow> \<exists>f1 ok'.
                lock_piece (g\<lparr>speed_counter := 0\<rparr>) = Inr (g\<lparr>speed_counter := 0, field := f1\<rparr>) \<and>
                bordered f1 \<and>
                check_lines (g\<lparr>speed_counter := 0, field := f1\<rparr>) =
                  Inr (g\<lparr>speed_counter := 0, field := cleared_rows f1,
                         score := score g + line_bonus (lines_full f1)\<rparr>) \<and>
                does_piece_fit (cleared_rows f1) kind 0 4 0 = Inr ok' \<and>
                new_piece kind (g\<lparr>speed_counter := 0, field := cleared_rows f1,
                                  score := score g + line_bonus (lines_full f1)\<rparr>) =
                  Inr (g\<lparr>speed_counter := 0, field := cleared_rows f1,
                         score := score g + line_bonus (lines_full f1),
                         current_piece := kind, current_rotation := 0, current_x := 4,
                         current_y := 0, game_over := \<not> ok'\<rparr>) \<and>
                force_down_branch kind g =
                  Inr (g\<lparr>speed_counter := 0, field := cleared_rows f1,
                         score := score g + line_bonus (lines_full f1),
                         current_piece := kind, current_rotation := 0, current_x := 4,
                         current_y := 0, game_over := \<not> ok',
                         piece_count := piece_count g + 1,
                         speed := (if (piece_count g + 1) mod 10 = 0 \<and> 10 < speed g
                                   then speed g - 1 else speed g)\<rparr>)"
    by blast
  have steps: "\<forall>kinds g''. speed g = 10 \<and> gravity_steps kinds g = Inr g'' \<longrightarrow> speed g'' = 10"
    using gravity_steps_speed by fastforce
  show ?thesis
  proof (cases ok)
    case True
    let ?g' = "g\<lparr>speed_counter := 0, current_y := current_y g + 1\<rparr>"
    have "force_down_branch kind g = Inr ?g'" using yes[OF True] .
    moreover have "10 \<le> speed g \<longrightarrow> 10 \<le> speed ?g'" by simp
    ultimately show ?thesis using ok True steps by blast
  next
    case False
    from no[OF False] obtain f1 ok' where
      l: "lock_piece ?g0 = Inr (g\<lparr>speed_counter := 0, field := f1\<rparr>)"
      and b1: "bordered f1"
      and c: "check_lines (g\<lparr>speed_counter := 0, field := f1\<rparr>) =
                  Inr (g\<lparr>speed_counter := 0, field := cleared_rows f1,
                         score := score g + line_bonus (lines_full f1)\<rparr>)"
      and f: "does_piece_fit (cleared_rows f1) kind 0 4 0 = Inr ok'"
      and n: "new_piece kind (g\<lparr>speed_counter := 0, field := cleared_rows f1,
                                  score := score g + line_bonus (lines_full f1)\<rparr>) =
                  Inr (g\<lparr>speed_counter := 0, field := cleared_rows f1,
                         score := score g + line_bonus (lines_full f1),
                         current_piece := kind, current_rotation := 0, current_x := 4,
                         current_y := 0, game_over := \<not> ok'\<rparr>)"
      and r: "force_down_branch kind g =
                  Inr (g\<lparr>speed_counter := 0, field := cleared_rows f1,
                         score := score g + line_bonus (lines_full f1),
                         current_piece := kind, current_rotation := 0, current_x := 4,
                         current_y := 0, game_over := \<not> ok',
                         piece_count := piece_count g + 1,
                         speed := (if (piece_count g + 1) mod 10 = 0 \<and> 10 < speed g
                                   then speed g - 1 else speed g)\<rparr>)"
      by blast
    from assms(1,2) have w0: "wf_field (field ?g0)" "0 \<le> current_piece ?g0"
      "current_piece ?g0 < 7" "fits_here ?g0"
      by (simp_all add: game_inv_def bordered_def fits_here_def)
    from lock_piece_ok[OF w0] obtain f1' where
      l': "lock_piece ?g0 = Inr (?g0\<lparr>field := f1'\<rparr>)"
      and cells': "\<forall>X Y. 0 \<le> X \<and> X < FIELD_WIDTH \<and> 0 \<le> Y \<and> Y < FIELD_HEIGHT \<longrightarrow>
          f1' ! nat Y ! nat X =
            (if X - current_x ?g0 \<in> {0..3} \<and> Y - current_y ?g0 \<in> {0..3} \<and>
                occupies_cell (current_piece ?g0) (current_rotation ?g0)
                  (X - current_x ?g0) (Y - current_y ?g0) = Inr True
             then current_piece ?g0 + 1 else field ?g0 ! nat Y ! nat X)"
      by blast
    from l l' have "field (g\<lparr>speed_counter := 0, field := f1\<rparr>) = field (?g0\<lparr>field := f1'\<rparr>)"
      by simp
    then have e: "f1' = f1" by simp
    from cells' e have cells: "\<forall>X Y. 0 \<le> X \<and> X < FIELD_WIDTH \<and> 0 \<le> Y \<and> Y < FIELD_HEIGHT \<longrightarrow>
              f1 ! nat Y ! nat X =
                (if X - current_x g \<in> {0..3} \<and> Y - current_y g \<in> {0..3} \<and>
                    occupies_cell (current_piece g) (current_rotation g)
                      (X - current_x g) (Y - current_y g) = Inr True
                 then current_piece g + 1 else field g ! nat Y ! nat X)"
      by simp
    from b1 have wf1: "wf_field f1" by (simp add: bordered_def)
    let ?cl = "replicate (lines_full f1) new_row @
                filter (\<lambda>row. \<not> full_row row) (butlast f1) @ [last f1]"
    let ?bonus = "if lines_full f1 = 0 then 0 else push_bit (lines_full f1) 1 * 100"
    have cr: "cleared_rows f1 = ?cl" by (simp add: cleared_rows_def)
    have lb: "line_bonus (lines_full f1) = ?bonus" by (simp add: line_bonus_def)
    let ?g' = "g\<lparr>speed_counter := 0, field := ?cl, score := score g + ?bonus,
                   current_piece := kind, current_rotation := 0, current_x := 4,
                   current_y := 0, game_over := \<not> ok',
                   piece_count := piece_count g + 1,
                   speed := (if (piece_count g + 1) mod 10 = 0 \<and> 10 < speed g
                             then speed g - 1 else speed g)\<rparr>"
    have run: "force_down_branch kind g = Inr ?g'" using r by (simp only: cr lb)
    have c': "check_lines (g\<lparr>speed_counter := 0, field := f1\<rparr>) =
             Inr (g\<lparr>speed_counter := 0, field := ?cl, score := score g + ?bonus\<rparr>)"
      using c by (simp only: cr lb)
    have f': "does_piece_fit ?cl kind 0 4 0 = Inr ok'" using f by (simp only: cr)
    have n': "new_piece kind (g\<lparr>speed_counter := 0, field := ?cl, score := score g + ?bonus\<rparr>) =
             Inr (g\<lparr>speed_counter := 0, field := ?cl, score := score g + ?bonus,
                    current_piece := kind, current_rotation := 0, current_x := 4,
                    current_y := 0, game_over := \<not> ok'\<rparr>)"
      using n by (simp only: cr lb)
    have sp: "10 \<le> speed g \<longrightarrow> 10 \<le> speed ?g'" by simp
    have inner: "\<exists>f1 ok'.
           lock_piece (g\<lparr>speed_counter := 0\<rparr>) = Inr (g\<lparr>speed_counter := 0, field := f1\<rparr>) \<and>
           wf_field f1 \<and>
           (\<forall>X Y. 0 \<le> X \<and> X < FIELD_WIDTH \<and> 0 \<le> Y \<and> Y < FIELD_HEIGHT \<longrightarrow>
              f1 ! nat Y ! nat X =
                (if X - current_x g \<in> {0..3} \<and> Y - current_y g \<in> {0..3} \<and>
                    occupies_cell (current_piece g) (current_rotation g)
                      (X - current_x g) (Y - current_y g) = Inr True
                 then current_piece g + 1 else field g ! nat Y ! nat X)) \<and>
           check_lines (g\<lparr>speed_counter := 0, field := f1\<rparr>) =
             Inr (g\<lparr>speed_counter := 0,
                    field := replicate (lines_full f1) new_row @
                             filter (\<lambda>row. \<not> full_row row) (butlast f1) @ [last f1],
                    score := score g + (if lines_full f1 = 0 then 0
                                        else push_bit (lines_full f1) 1 * 100)\<rparr>) \<and>
           does_piece_fit
               (replicate (lines_full f1) new_row @
                filter (\<lambda>row. \<not> full_row row) (butlast f1) @ [last f1]) kind 0 4 0 = Inr ok' \<and>
           new_piece kind
               (g\<lparr>speed_counter := 0,
                  field := replicate (lines_full f1) new_row @
                           filter (\<lambda>row. \<not> full_row row) (butlast f1) @ [last f1],
                  score := score g + (if lines_full f1 = 0 then 0
                                      else push_bit (lines_full f1) 1 * 100)\<rparr>) =
             Inr (g\<lparr>speed_counter := 0,
                    field := replicate (lines_full f1) new_row @
                             filter (\<lambda>row. \<not> full_row row) (butlast f1) @ [last f1],
                    score := score g + (if lines_full f1 = 0 then 0
                                        else push_bit (lines_full f1) 1 * 100),
                    current_piece := kind, current_rotation := 0, current_x := 4,
                    current_y := 0, game_over := \<not> ok'\<rparr>) \<and>
           ?g' = g\<lparr>speed_counter := 0,
                   field := replicate (lines_full f1) new_row @
                            filter (\<lambda>row. \<not> full_row row) (butlast f1) @ [last f1],
                   score := score g + (if lines_full f1 = 0 then 0
                                       else push_bit (lines_full f1) 1 * 100),
                   current_piece := kind, current_rotation := 0, current_x := 4,
                   current_y := 0, game_over := \<not> ok',
                   piece_count := piece_count g + 1,
                   speed := (if (piece_count g + 1) mod 10 = 0 \<and> 10 < speed g
                             then speed g - 1 else speed g)\<rparr>"
      using l wf1 cells c' f' n' by (intro exI[of _ f1] exI[of _ ok'] conjI refl)
    from ok False run inner sp steps show ?thesis by blast
  qed
qed

theorem gravity_step_witness:
  "game_inv (fresh_game 3) \<and> \<not> game_over (fresh_game 3) \<and>
   force_down_branch 0 (fresh_game 3) =
     Inr ((fresh_game 3)\<lparr>speed_counter := 0, current_y := 1\<rparr>) \<and>
   game_inv low_game \<and> \<not> game_over low_game \<and>
   force_down_branch 0 low_game =
     Inr ((fresh_game 0)\<lparr>field := low_locked_field, piece_count := 10, speed := 10\<rparr>) \<and>
   game_inv two_gap_game \<and> \<not> game_over two_gap_game \<and>
   force_down_branch 0 two_gap_game =
     Inr ((fresh_game 0)\<lparr>score := 1100, piece_count := 1\<rparr>)"
proof -
  have k: "(0::int) \<le> 0" "(0::int) < 7" "(0::int) \<le> 3" "(3::int) < 7" by simp_all
  have inv: "game_inv (fresh_game 3)" by (rule game_inv_fresh[OF k(3,4)])
  have go: "\<not> game_over (fresh_game 3)" by (simp add: fresh_game_def)
  have fit1: "does_piece_fit initial_field 3 0 4 1 = Inr True" by code_simp
  from gravity_step[OF inv go k(1,2)] obtain ok g' where
    f: "does_piece_fit (field (fresh_game 3)) (current_piece (fresh_game 3))
          (current_rotation (fresh_game 3)) (current_x (fresh_game 3))
          (current_y (fresh_game 3) + 1) = Inr ok"
    and r: "force_down_branch 0 (fresh_game 3) = Inr g'"
    and y: "ok \<longrightarrow> g' = (fresh_game 3)\<lparr>speed_counter := 0,
              current_y := current_y (fresh_game 3) + 1\<rparr>"
    by blast
  from f fit1 have "ok" by (simp add: fresh_game_def)
  with y r have a: "force_down_branch 0 (fresh_game 3) =
     Inr ((fresh_game 3)\<lparr>speed_counter := 0, current_y := 1\<rparr>)"
    by (simp add: fresh_game_def)
  have b: "force_down_branch 0 low_game =
     Inr ((fresh_game 0)\<lparr>field := low_locked_field, piece_count := 10, speed := 10\<rparr>)"
  proof -
    from gravity_step[OF low_game_facts(1,2) k(1,2)] obtain ok2 g2 where
      f2: "does_piece_fit (field low_game) (current_piece low_game) (current_rotation low_game)
            (current_x low_game) (current_y low_game + 1) = Inr ok2"
      and r2: "force_down_branch 0 low_game = Inr g2"
      and n2: "\<not> ok2 \<longrightarrow>
        (\<exists>f1 ok'.
           lock_piece (low_game\<lparr>speed_counter := 0\<rparr>) =
             Inr (low_game\<lparr>speed_counter := 0, field := f1\<rparr>) \<and>
           does_piece_fit
               (replicate (lines_full f1) new_row @
                filter (\<lambda>row. \<not> full_row row) (butlast f1) @ [last f1]) 0 0 4 0 = Inr ok' \<and>
           g2 = low_game\<lparr>speed_counter := 0,
                   field := replicate (lines_full f1) new_row @
                            filter (\<lambda>row. \<not> full_row row) (butlast f1) @ [last f1],
                   score := score low_game + (if lines_full f1 = 0 then 0
                                       else push_bit (lines_full f1) 1 * 100),
                   current_piece := 0, current_rotation := 0, current_x := 4,
                   current_y := 0, game_over := \<not> ok',
                   piece_count := piece_count low_game + 1,
                   speed := (if (piece_count low_game + 1) mod 10 = 0 \<and> 10 < speed low_game
                             then speed low_game - 1 else speed low_game)\<rparr>)"
      by blast
    from f2 low_game_facts(3) have "\<not> ok2" by simp
    with n2 obtain f1 ok' where
      l: "lock_piece (low_game\<lparr>speed_counter := 0\<rparr>) =
             Inr (low_game\<lparr>speed_counter := 0, field := f1\<rparr>)"
      and d: "does_piece_fit
               (replicate (lines_full f1) new_row @
                filter (\<lambda>row. \<not> full_row row) (butlast f1) @ [last f1]) 0 0 4 0 = Inr ok'"
      and g2: "g2 = low_game\<lparr>speed_counter := 0,
                   field := replicate (lines_full f1) new_row @
                            filter (\<lambda>row. \<not> full_row row) (butlast f1) @ [last f1],
                   score := score low_game + (if lines_full f1 = 0 then 0
                                       else push_bit (lines_full f1) 1 * 100),
                   current_piece := 0, current_rotation := 0, current_x := 4,
                   current_y := 0, game_over := \<not> ok',
                   piece_count := piece_count low_game + 1,
                   speed := (if (piece_count low_game + 1) mod 10 = 0 \<and> 10 < speed low_game
                             then speed low_game - 1 else speed low_game)\<rparr>"
      by blast
    from l low_game_facts(4)
    have "field (low_game\<lparr>speed_counter := 0, field := f1\<rparr>) =
          field (low_game\<lparr>speed_counter := 0, field := low_locked_field\<rparr>)" by simp
    then have e: "f1 = low_locked_field" by simp
    from d e low_game_facts(5,7) have "ok'" by simp
    with g2 e low_game_facts(5,6) have "g2 =
        (fresh_game 0)\<lparr>field := low_locked_field, piece_count := 10, speed := 10\<rparr>"
      by (simp add: low_game_def fresh_game_def)
    with r2 show ?thesis by simp
  qed
  have c: "force_down_branch 0 two_gap_game =
     Inr ((fresh_game 0)\<lparr>score := 1100, piece_count := 1\<rparr>)"
  proof -
    from gravity_step[OF two_gap_game_facts(1,2) k(1,2)] obtain ok2 g2 where
      f2: "does_piece_fit (field two_gap_game) (current_piece two_gap_game)
            (current_rotation two_gap_game) (current_x two_gap_game)
            (current_y two_gap_game + 1) = Inr ok2"
      and r2: "force_down_branch 0 two_gap_game = Inr g2"
      and n2: "\<not> ok2 \<longrightarrow>
        (\<exists>f1 ok'.
           lock_piece (two_gap_game\<lparr>speed_counter := 0\<rparr>) =
             Inr (two_gap_game\<lparr>speed_counter := 0, field := f1\<rparr>) \<and>
           does_piece_fit
               (replicate (lines_full f1) new_row @
                filter (\<lambda>row. \<not> full_row row) (butlast f1) @ [last f1]) 0 0 4 0 = Inr ok' \<and>
           g2 = two_gap_game\<lparr>speed_counter := 0,
                   field := replicate (lines_full f1) new_row @
                            filter (\<lambda>row. \<not> full_row row) (butlast f1) @ [last f1],
                   score := score two_gap_game + (if lines_full f1 = 0 then 0
                                       else push_bit (lines_full f1) 1 * 100),
                   current_piece := 0, current_rotation := 0, current_x := 4,
                   current_y := 0, game_over := \<not> ok',
                   piece_count := piece_count two_gap_game + 1,
                   speed := (if (piece_count two_gap_game + 1) mod 10 = 0 \<and>
                                10 < speed two_gap_game
                             then speed two_gap_game - 1 else speed two_gap_game)\<rparr>)"
      by blast
    from f2 two_gap_game_facts(3) have "\<not> ok2" by simp
    with n2 obtain f1 ok' where
      l: "lock_piece (two_gap_game\<lparr>speed_counter := 0\<rparr>) =
             Inr (two_gap_game\<lparr>speed_counter := 0, field := f1\<rparr>)"
      and d: "does_piece_fit
               (replicate (lines_full f1) new_row @
                filter (\<lambda>row. \<not> full_row row) (butlast f1) @ [last f1]) 0 0 4 0 = Inr ok'"
      and g2: "g2 = two_gap_game\<lparr>speed_counter := 0,
                   field := replicate (lines_full f1) new_row @
                            filter (\<lambda>row. \<not> full_row row) (butlast f1) @ [last f1],
                   score := score two_gap_game + (if lines_full f1 = 0 then 0
                                       else push_bit (lines_full f1) 1 * 100),
                   current_piece := 0, current_rotation := 0, current_x := 4,
                   current_y := 0, game_over := \<not> ok',
                   piece_count := piece_count two_gap_game + 1,
                   speed := (if (piece_count two_gap_game + 1) mod 10 = 0 \<and>
                                10 < speed two_gap_game
                             then speed two_gap_game - 1 else speed two_gap_game)\<rparr>"
      by blast
    from l two_gap_lock_facts(1)
    have "field (two_gap_game\<lparr>speed_counter := 0, field := f1\<rparr>) =
          field (two_gap_game\<lparr>speed_counter := 0, field := two_gap_locked_field\<rparr>)" by simp
    then have e: "f1 = two_gap_locked_field" by simp
    from d e two_gap_lock_facts(2,4) have "ok'" by simp
    with g2 e two_gap_lock_facts(2,3) have "g2 =
        (fresh_game 0)\<lparr>score := 1100, piece_count := 1\<rparr>"
      by (simp add: two_gap_game_def fresh_game_def push_bit_eq_mult)
    with r2 show ?thesis by simp
  qed
  from inv go a low_game_facts(1,2) b two_gap_game_facts(1,2) c show ?thesis by blast
qed

text \<open>
  Claim C6.  On a board of the fixed size and for each of the seven kinds, \<open>new_piece\<close>
  returns; it stores the drawn kind, rotation 0, \<open>x = FIELD_WIDTH // 2 - 2 = 4\<close> and
  \<open>y = 0\<close>, runs the collision test at that placement and sets \<open>game_over\<close> to true when
  the test fails (it never clears the flag); the piece is stored in either case.  On the
  empty bordered board the O piece (kind 3) fits at \<open>x = 4\<close>, \<open>y = 0\<close>.
\<close>

theorem new_piece_spawn:
  assumes "wf_field (field g)" and "0 \<le> kind" and "kind < 7"
  shows "(\<exists>ok. does_piece_fit (field g) kind 0 4 0 = Inr ok \<and>
            new_piece kind g =
              Inr (g\<lparr>current_piece := kind, current_rotation := 0, current_x := 4,
                     current_y := 0, game_over := game_over g \<or> \<not> ok\<rparr>)) \<and>
         FIELD_WIDTH div 2 - 2 = 4 \<and>
         (field g = initial_field \<longrightarrow>
            does_piece_fit (field g) 3 0 4 0 = Inr True \<and>
            new_piece 3 g =
              Inr (g\<lparr>current_piece := 3, current_rotation := 0, current_x := 4,
                     current_y := 0\<rparr>))"
proof -
  have o: "does_piece_fit (field g) 3 0 4 0 = Inr True \<and>
            new_piece 3 g =
              Inr (g\<lparr>current_piece := 3, current_rotation := 0, current_x := 4,
                     current_y := 0\<rparr>)" if f: "field g = initial_field"
  proof -
    have fit: "does_piece_fit initial_field 3 0 4 0 = Inr True"
      by (rule spawn_fits_initial) simp_all
    with f show ?thesis by (simp add: new_piece_def Let_def spawn_x)
  qed
  from new_piece_eq[OF assms] spawn_x o show ?thesis by blast
qed

theorem new_piece_spawn_witness:
  "wf_field (field (fresh_game 0)) \<and>
   new_piece 3 (fresh_game 0) = Inr (fresh_game 3) \<and>
   does_piece_fit tower_field 3 0 4 0 = Inr False \<and>
   new_piece 3 ((fresh_game 0)\<lparr>field := tower_field\<rparr>) =
     Inr ((fresh_game 3)\<lparr>field := tower_field, game_over := True\<rparr>)"
proof -
  have k: "(0::int) \<le> 3" "(3::int) < 7" by simp_all
  have wf: "wf_field (field (fresh_game 0))"
    using wf_initial_field by (simp add: fresh_game_def)
  have f: "field (fresh_game 0) = initial_field" by (simp add: fresh_game_def)
  from new_piece_spawn[OF wf k] f
  have a: "new_piece 3 (fresh_game 0) = Inr (fresh_game 3)"
    by (simp add: fresh_game_def)
  have wt: "wf_field (field ((fresh_game 0)\<lparr>field := tower_field\<rparr>))"
    by simp code_simp
  have nf: "does_piece_fit tower_field 3 0 4 0 = Inr False" by code_simp
  from new_piece_spawn[OF wt k] nf
  have b: "new_piece 3 ((fresh_game 0)\<lparr>field := tower_field\<rparr>) =
     Inr ((fresh_game 3)\<lparr>field := tower_field, game_over := True\<rparr>)"
    by (auto simp: fresh_game_def)
  from wf a nf b show ?thesis by blast
qed

text \<open>
  Claim C7.  On a board of the fixed size and with an active piece of one of the seven
  kinds, each handler runs the collision test at its target placement and returns: on
  success \<open>handle_left\<close> stores \<open>x - 1\<close>, \<open>handle_right\<close> stores \<open>x + 1\<close>, \<open>handle_down\<close> stores
  \<open>y + 1\<close> and sets the fall timer to 0, \<open>handle_rotate\<close> stores \<open>rotation + 1\<close> (which
  \<open>rotate\<close> reads modulo 4); on failure the state is returned as it was.
\<close>

theorem handlers_commit_or_noop:
  assumes "wf_field (field g)" and "0 \<le> current_piece g" and "current_piece g < 7"
  shows "(\<exists>ok. does_piece_fit (field g) (current_piece g) (current_rotation g)
                  (current_x g - 1) (current_y g) = Inr ok \<and>
               handle_left g = Inr (if ok then g\<lparr>current_x := current_x g - 1\<rparr> else g)) \<and>
         (\<exists>ok. does_piece_fit (field g) (current_piece g) (current_rotation g)
                  (current_x g + 1) (current_y g) = Inr ok \<and>
               handle_right g = Inr (if ok then g\<lparr>current_x := current_x g + 1\<rparr> else g)) \<and>
         (\<exists>ok. does_piece_fit (field g) (current_piece g) (current_rotation g)
                  (current_x g) (current_y g + 1) = Inr ok \<and>
               handle_down g =
                 Inr (if ok then g\<lparr>current_y := current_y g + 1, speed_counter := 0\<rparr> else g)) \<and>
         (\<exists>ok. does_piece_fit (field g) (current_piece g) (current_rotation g + 1)
                  (current_x g) (current_y g) = Inr ok \<and>
               handle_rotate g =
                 Inr (if ok then g\<lparr>current_rotation := current_rotation g + 1\<rparr> else g)) \<and>
         (\<forall>px py. rotate_idx px py (current_rotation g + 1) =
                    rotate_idx px py ((current_rotation g + 1) mod 4))"
proof -
  have "\<forall>px py. rotate_idx px py (current_rotation g + 1) =
                    rotate_idx px py ((current_rotation g + 1) mod 4)"
    by (simp add: rotate_idx_def)
  with handle_left_eq[OF assms] handle_right_eq[OF assms] handle_down_eq[OF assms]
    handle_rotate_eq[OF assms]
  show ?thesis by blast
qed

theorem handlers_commit_or_noop_witness:
  "wf_field (field (fresh_game 3)) \<and>
   handle_left (fresh_game 3) = Inr ((fresh_game 3)\<lparr>current_x := 3\<rparr>) \<and>
   handle_right (fresh_game 3) = Inr ((fresh_game 3)\<lparr>current_x := 5\<rparr>) \<and>
   handle_down ((fresh_game 3)\<lparr>speed_counter := 7\<rparr>) = Inr ((fresh_game 3)\<lparr>current_y := 1\<rparr>) \<and>
   handle_rotate (fresh_game 3) = Inr ((fresh_game 3)\<lparr>current_rotation := 1\<rparr>) \<and>
   handle_left ((fresh_game 3)\<lparr>current_x := 0\<rparr>) = Inr ((fresh_game 3)\<lparr>current_x := 0\<rparr>)"
proof -
  have w: "wf_field (field (fresh_game 3))" "0 \<le> current_piece (fresh_game 3)"
    "current_piece (fresh_game 3) < 7"
    using wf_initial_field by (simp_all add: fresh_game_def)
  have w7: "wf_field (field ((fresh_game 3)\<lparr>speed_counter := 7\<rparr>))"
    "0 \<le> current_piece ((fresh_game 3)\<lparr>speed_counter := 7\<rparr>)"
    "current_piece ((fresh_game 3)\<lparr>speed_counter := 7\<rparr>) < 7"
    using w by simp_all
  have w0: "wf_field (field ((fresh_game 3)\<lparr>current_x := 0\<rparr>))"
    "0 \<le> current_piece ((fresh_game 3)\<lparr>current_x := 0\<rparr>)"
    "current_piece ((fresh_game 3)\<lparr>current_x := 0\<rparr>) < 7"
    using w by simp_all
  have fits: "does_piece_fit initial_field 3 0 3 0 = Inr True"
    "does_piece_fit initial_field 3 0 5 0 = Inr True"
    "does_piece_fit initial_field 3 0 4 1 = Inr True"
    "does_piece_fit initial_field 3 1 4 0 = Inr True"
    "does_piece_fit initial_field 3 0 (- 1) 0 = Inr False"
    by code_simp+
  have "handle_left (fresh_game 3) = Inr ((fresh_game 3)\<lparr>current_x := 3\<rparr>)"
    using handlers_commit_or_noop[OF w] fits by (auto simp: fresh_game_def)
  moreover have "handle_right (fresh_game 3) = Inr ((fresh_game 3)\<lparr>current_x := 5\<rparr>)"
    using handlers_commit_or_noop[OF w] fits by (auto simp: fresh_game_def)
  moreover have "handle_down ((fresh_game 3)\<lparr>speed_counter := 7\<rparr>) =
      Inr ((fresh_game 3)\<lparr>current_y := 1\<rparr>)"
    using handlers_commit_or_noop[OF w7] fits by (auto simp: fresh_game_def)
  moreover have "handle_rotate (fresh_game 3) = Inr ((fresh_game 3)\<lparr>current_rotation := 1\<rparr>)"
    using handlers_commit_or_noop[OF w] fits by (auto simp: fresh_game_def)
  moreover have "handle_left ((fresh_game 3)\<lparr>current_x := 0\<rparr>) =
      Inr ((fresh_game 3)\<lparr>current_x := 0\<rparr>)"
    using handlers_commit_or_noop[OF w0] fits by (auto simp: fresh_game_def)
  ultimately show ?thesis using w(1) by blast
qed

lemma apply_event_reachable:
  assumes r: "reachable s" and v: "valid_event ev" and a: "apply_event ev s = Inr s'"
  shows "reachable s'"
proof (cases ev)
  case (Run k1 k2 clicked)
  with a obtain buttons e where "script k1 k2 clicked s = Inr (s', buttons, e)"
    by (cases "script k1 k2 clicked s") auto
  with r v Run show ?thesis by (auto intro: reachable.run)
next
  case ClickLeft
  show ?thesis
  proof (cases s)
    case None
    with ClickLeft a r show ?thesis by simp
  next
    case (Some g)
    with ClickLeft a obtain g' where "handle_left g = Inr g'" "s' = Some g'"
      by (cases "handle_left g") auto
    with r Some show ?thesis by (auto intro: reachable.left)
  qed
next
  case ClickRight
  show ?thesis
  proof (cases s)
    case None
    with ClickRight a r show ?thesis by simp
  next
    case (Some g)
    with ClickRight a obtain g' where "handle_right g = Inr g'" "s' = Some g'"
      by (cases "handle_right g") auto
    with r Some show ?thesis by (auto intro: reachable.right)
  qed
next
  case ClickDown
  show ?thesis
  proof (cases s)
    case None
    with ClickDown a r show ?thesis by simp
  next
    case (Some g)
    with ClickDown a obtain g' where "handle_down g = Inr g'" "s' = Some g'"
      by (cases "handle_down g") auto
    with r Some show ?thesis by (auto intro: reachable.down)
  qed
next
  case ClickRotate
  show ?thesis
  proof (cases s)
    case None
    with ClickRotate a r show ?thesis by simp
  next
    case (Some g)
    with ClickRotate a obtain g' where "handle_rotate g = Inr g'" "s' = Some g'"
      by (cases "handle_rotate g") auto
    with r Some show ?thesis by (auto intro: reachable.rotate)
  qed
qed

lemma play_reachable:
  "reachable s \<Longrightarrow> list_all valid_event evs \<Longrightarrow> play evs s = Inr s' \<Longrightarrow> reachable s'"
proof (induction evs arbitrary: s)
  case Nil
  then show ?case by simp
next
  case (Cons ev evs)
  from Cons.prems(3) obtain s1 where
    s1: "apply_event ev s = Inr s1" "play evs s1 = Inr s'"
    by (cases "apply_event ev s") simp_all
  from Cons.prems(2) have v: "valid_event ev" "list_all valid_event evs" by simp_all
  from apply_event_reachable[OF Cons.prems(1) v(1) s1(1)] have "reachable s1" .
  from Cons.IH[OF this v(2) s1(2)] show ?case .
qed

lemma play_tower: "play tower_events None = Inr (Some tower_game)"
  by code_simp

lemma tower_events_valid: "list_all valid_event tower_events"
  by code_simp

lemma reachable_tower_game: "reachable (Some tower_game)"
  by (rule play_reachable[OF reachable.fresh tower_events_valid play_tower])

lemma tower_last_run:
  "script 0 3 False (Some tower_before) =
     Inr (Some tower_game, [Left, Down, Right, Rotate], Rerun)"
  by code_simp

lemma tower_game_left: "handle_left tower_game = Inr (tower_game\<lparr>current_x := 3\<rparr>)"
  by code_simp

lemma tower_game_fields: "game_over tower_game" "current_x tower_game = 4"
  by code_simp+

text \<open>
  Claim C8 as stated (no movement or rotation command changes the active piece once
  \<open>game_over\<close> is set) fails: \<open>tower_game\<close> is reachable and has \<open>game_over\<close> set, the run
  that entered it had rendered the four movement buttons, and \<open>handle_left\<close> moves its
  active piece from \<open>x = 4\<close> to \<open>x = 3\<close>.
\<close>

theorem game_over_terminal_counterexample:
  "reachable (Some tower_game) \<and> game_over tower_game \<and> current_x tower_game = 4 \<and>
   script 0 3 False (Some tower_before) =
     Inr (Some tower_game, [Left, Down, Right, Rotate], Rerun) \<and>
   handle_left tower_game = Inr (tower_game\<lparr>current_x := 3\<rparr>)"
  using reachable_tower_game tower_game_fields tower_last_run tower_game_left by blast

lemma handle_left_frame:
  "handle_left g = Inr g' \<Longrightarrow> g' = g \<or> g' = g\<lparr>current_x := current_x g - 1\<rparr>"
  by (cases "does_piece_fit (field g) (current_piece g) (current_rotation g) (current_x g - 1)
        (current_y g)") (auto simp: handle_left_def split: if_splits)

lemma handle_right_frame:
  "handle_right g = Inr g' \<Longrightarrow> g' = g \<or> g' = g\<lparr>current_x := current_x g + 1\<rparr>"
  by (cases "does_piece_fit (field g) (current_piece g) (current_rotation g) (current_x g + 1)
        (current_y g)") (auto simp: handle_right_def split: if_splits)

lemma handle_down_frame:
  "handle_down g = Inr g' \<Longrightarrow>
   g' = g \<or> g' = g\<lparr>current_y := current_y g + 1, speed_counter := 0\<rparr>"
  by (cases "does_piece_fit (field g) (current_piece g) (current_rotation g) (current_x g)
        (current_y g + 1)") (auto simp: handle_down_def split: if_splits)

lemma handle_rotate_frame:
  "handle_rotate g = Inr g' \<Longrightarrow>
   g' = g \<or> g' = g\<lparr>current_rotation := current_rotation g + 1\<rparr>"
  by (cases "does_piece_fit (field g) (current_piece g) (current_rotation g + 1) (current_x g)
        (current_y g)") (auto simp: handle_rotate_def split: if_splits)

lemma handlers_frame:
  assumes "handle_left g = Inr g' \<or> handle_right g = Inr g' \<or> handle_down g = Inr g' \<or>
           handle_rotate g = Inr g'"
  shows "field g' = field g \<and> score g' = score g \<and> speed g' = speed g \<and>
         piece_count g' = piece_count g \<and> game_over g' = game_over g \<and>
         current_piece g' = current_piece g"
  using assms handle_left_frame[of g g'] handle_right_frame[of g g'] handle_down_frame[of g g']
    handle_rotate_frame[of g g']
  by (elim disjE) auto

text \<open>
  Claim C8, as amended.  In a state with \<open>game_over\<close> set, a run of the script stops at
  the guard: it renders only the restart button, performs no gravity step and leaves the
  state as it is; a click on restart clears the session, and the next run builds the
  whole state anew.  The handlers carry no test of \<open>game_over\<close> of their own; whatever
  state they are called in, they change at most the active piece's position or rotation
  and the fall timer, never the board, the score, the speed, the piece count or
  \<open>game_over\<close>.
\<close>

theorem game_over_terminal:
  assumes "game_over g"
  shows "script k1 k2 False (Some g) = Inr (Some g, [Restart], Stopped) \<and>
         script k1 k2 True (Some g) = Inr (None, [Restart], Rerun) \<and>
         (0 \<le> k1 \<and> k1 < 7 \<longrightarrow>
            initialize_game k1 None = Inr (fresh_game k1) \<and>
            script k1 k2 clicked None =
              Inr (Some ((fresh_game k1)\<lparr>speed_counter := 1\<rparr>), [Left, Down, Right, Rotate], Rerun)) \<and>
         (\<forall>g'. handle_left g = Inr g' \<or> handle_right g = Inr g' \<or> handle_down g = Inr g' \<or>
                handle_rotate g = Inr g' \<longrightarrow>
                field g' = field g \<and> score g' = score g \<and> speed g' = speed g \<and>
                piece_count g' = piece_count g \<and> current_piece g' = current_piece g \<and>
                game_over g')"
proof -
  have a: "script k1 k2 False (Some g) = Inr (Some g, [Restart], Stopped)"
    using assms by (simp add: script_def initialize_game_def)
  have b: "script k1 k2 True (Some g) = Inr (None, [Restart], Rerun)"
    using assms by (simp add: script_def initialize_game_def)
  have c: "initialize_game k1 None = Inr (fresh_game k1) \<and>
            script k1 k2 clicked None =
              Inr (Some ((fresh_game k1)\<lparr>speed_counter := 1\<rparr>), [Left, Down, Right, Rotate], Rerun)"
    if k: "0 \<le> k1 \<and> k1 < 7"
  proof -
    from k have i: "initialize_game k1 None = Inr (fresh_game k1)"
      by (intro initialize_game_fresh) simp_all
    have "game_loop k2 (fresh_game k1) = Inr ((fresh_game k1)\<lparr>speed_counter := 1\<rparr>)"
      by (simp add: game_loop_def Let_def fresh_game_def)
    with i show ?thesis by (simp add: script_def fresh_game_def)
  qed
  have d: "\<forall>g'. handle_left g = Inr g' \<or> handle_right g = Inr g' \<or> handle_down g = Inr g' \<or>
                handle_rotate g = Inr g' \<longrightarrow>
                field g' = field g \<and> score g' = score g \<and> speed g' = speed g \<and>
                piece_count g' = piece_count g \<and> current_piece g' = current_piece g \<and>
                game_over g'"
    using handlers_frame[of g] assms by blast
  from a b c d show ?thesis by blast
qed

theorem game_over_terminal_witness:
  "game_over tower_game \<and>
   script 0 0 False (Some tower_game) = Inr (Some tower_game, [Restart], Stopped) \<and>
   script 0 0 True (Some tower_game) = Inr (None, [Restart], Rerun) \<and>
   script 0 0 False None =
     Inr (Some ((fresh_game 0)\<lparr>speed_counter := 1\<rparr>), [Left, Down, Right, Rotate], Rerun)"
proof -
  have k: "(0::int) \<le> 0 \<and> (0::int) < 7" by simp
  from game_over_terminal[OF tower_game_fields(1), of 0 0 False] k tower_game_fields(1)
  show ?thesis by blast
qed

lemma first_run:
  "script 3 0 False None =
     Inr (Some ((fresh_game 3)\<lparr>speed_counter := 1\<rparr>), [Left, Down, Right, Rotate], Rerun)"
  by code_simp

text \<open>
  Claim C9.  In every state the application can reach, the board has its size and every
  cell of column 0, of column \<open>FIELD_WIDTH - 1\<close> and of row \<open>FIELD_HEIGHT - 1\<close> holds 9.  A
  placement that passes the collision test has all its occupied cells strictly inside
  the border.  Locking (done only when the game is not over) and line clearing return a
  board with the border intact; spawning and the four handlers leave the board as it is.
\<close>

theorem border_invariant:
  assumes "reachable (Some g)"
  shows "bordered (field g) \<and>
     (\<forall>y \<in> {0..<FIELD_HEIGHT}.
        field g ! nat y ! 0 = 9 \<and> field g ! nat y ! nat (FIELD_WIDTH - 1) = 9) \<and>
     (\<forall>x \<in> {0..<FIELD_WIDTH}. field g ! nat (FIELD_HEIGHT - 1) ! nat x = 9) \<and>
     (\<forall>kind r x y px py.
        0 \<le> kind \<and> kind < 7 \<and> does_piece_fit (field g) kind r x y = Inr True \<and>
        px \<in> {0..3} \<and> py \<in> {0..3} \<and> occupies_cell kind r px py = Inr True \<longrightarrow>
        1 \<le> x + px \<and> x + px \<le> FIELD_WIDTH - 2 \<and> 0 \<le> y + py \<and> y + py \<le> FIELD_HEIGHT - 2) \<and>
     (\<not> game_over g \<longrightarrow> (\<exists>g1. lock_piece g = Inr g1 \<and> bordered (field g1))) \<and>
     (\<exists>g2. check_lines g = Inr g2 \<and> bordered (field g2)) \<and>
     (\<forall>kind g3. new_piece kind g = Inr g3 \<longrightarrow> field g3 = field g) \<and>
     (\<forall>g'. handle_left g = Inr g' \<or> handle_right g = Inr g' \<or> handle_down g = Inr g' \<or>
            handle_rotate g = Inr g' \<longrightarrow> field g' = field g)"
proof -
  from reachable_inv[OF assms] have inv: "game_inv g" by simp
  then have b: "bordered (field g)" and p: "0 \<le> current_piece g" "current_piece g < 7"
    by (simp_all add: game_inv_def)
  from b have cols: "\<forall>y \<in> {0..<FIELD_HEIGHT}.
        field g ! nat y ! 0 = 9 \<and> field g ! nat y ! nat (FIELD_WIDTH - 1) = 9"
    and bot: "\<forall>x \<in> {0..<FIELD_WIDTH}. field g ! nat (FIELD_HEIGHT - 1) ! nat x = 9"
    unfolding bordered_def by blast+
  have fit: "\<forall>kind r x y px py.
        0 \<le> kind \<and> kind < 7 \<and> does_piece_fit (field g) kind r x y = Inr True \<and>
        px \<in> {0..3} \<and> py \<in> {0..3} \<and> occupies_cell kind r px py = Inr True \<longrightarrow>
        1 \<le> x + px \<and> x + px \<le> FIELD_WIDTH - 2 \<and> 0 \<le> y + py \<and> y + py \<le> FIELD_HEIGHT - 2"
    using fit_interior[OF b] by blast
  have lk: "\<not> game_over g \<longrightarrow> (\<exists>g1. lock_piece g = Inr g1 \<and> bordered (field g1))"
  proof
    assume "\<not> game_over g"
    with inv have "fits_here g" by (simp add: game_inv_def)
    from lock_piece_bordered[OF b p this] obtain f' where
      "lock_piece g = Inr (g\<lparr>field := f'\<rparr>)" "bordered f'" by blast
    then have "lock_piece g = Inr (g\<lparr>field := f'\<rparr>) \<and> bordered (field (g\<lparr>field := f'\<rparr>))"
      by simp
    then show "\<exists>g1. lock_piece g = Inr g1 \<and> bordered (field g1)" by blast
  qed
  have cl: "\<exists>g2. check_lines g = Inr g2 \<and> bordered (field g2)"
  proof -
    from check_lines_bordered[OF b] obtain f' s' where
      "check_lines g = Inr (g\<lparr>score := s', field := f'\<rparr>)" "bordered f'" by blast
    then have "check_lines g = Inr (g\<lparr>score := s', field := f'\<rparr>) \<and>
        bordered (field (g\<lparr>score := s', field := f'\<rparr>))" by simp
    then show ?thesis by blast
  qed
  have np: "\<forall>kind g3. new_piece kind g = Inr g3 \<longrightarrow> field g3 = field g"
    using new_piece_frame by fastforce
  have hd: "\<forall>g'. handle_left g = Inr g' \<or> handle_right g = Inr g' \<or> handle_down g = Inr g' \<or>
            handle_rotate g = Inr g' \<longrightarrow> field g' = field g"
    using handlers_frame[of g] by blast
  from b cols bot fit lk cl np hd show ?thesis by blast
qed

theorem border_invariant_witness:
  "reachable (Some ((fresh_game 3)\<lparr>speed_counter := 1\<rparr>)) \<and>
   bordered (field ((fresh_game 3)\<lparr>speed_counter := 1\<rparr>)) \<and>
   (\<exists>g1. lock_piece ((fresh_game 3)\<lparr>speed_counter := 1\<rparr>) = Inr g1 \<and> bordered (field g1)) \<and>
   reachable (Some tower_game) \<and> bordered (field tower_game)"
proof -
  have r: "reachable (Some ((fresh_game 3)\<lparr>speed_counter := 1\<rparr>))"
    by (rule reachable.run[OF reachable.fresh _ _ _ _ first_run]) simp_all
  have go: "\<not> game_over ((fresh_game 3)\<lparr>speed_counter := 1\<rparr>)"
    by (simp add: fresh_game_def)
  from border_invariant[OF r] go border_invariant[OF reachable_tower_game]
  show ?thesis using r reachable_tower_game by blast
qed

text \<open>
  Claim C10.  For local coordinates in \<open>[0,4)\<close> and every integer rotation, \<open>rotate\<close>
  returns an index in \<open>[0,16)\<close> (the remainder modulo 4 is one of 0, 1, 2, 3, so the
  initial \<open>index = 0\<close> is never what is returned by default).  Each of the seven patterns
  has 16 characters, so the lookup of the pattern and of the character in it raise
  nothing; the collision test returns on every board of the fixed size, and locking
  returns whenever the active piece fits where it is.
\<close>

theorem lookups_in_bounds:
  assumes "0 \<le> px" and "px < 4" and "0 \<le> py" and "py < 4"
  shows "0 \<le> rotate_idx px py r \<and> rotate_idx px py r < 16 \<and>
         r mod 4 \<in> {0, 1, 2, 3} \<and>
         (0 \<le> kind \<and> kind < 7 \<longrightarrow>
            length (tetromino ! nat kind) = 16 \<and>
            py_get tetromino kind = Inr (tetromino ! nat kind) \<and>
            py_get (tetromino ! nat kind) (rotate_idx px py r) =
              Inr (tetromino ! nat kind ! nat (rotate_idx px py r)) \<and>
            (\<exists>b. occupies_cell kind r px py = Inr b) \<and>
            (wf_field f \<longrightarrow> (\<exists>b. does_piece_fit f kind r x y = Inr b)) \<and>
            (wf_field (field g) \<and> current_piece g = kind \<and> fits_here g \<longrightarrow>
               (\<exists>g'. lock_piece g = Inr g')))"
proof -
  have b: "0 \<le> rotate_idx px py r \<and> rotate_idx px py r < 16"
    by (rule rotate_idx_bounds[OF assms])
  have m: "r mod 4 \<in> {0, 1, 2, 3}"
  proof -
    have "r mod 4 = 0 \<or> r mod 4 = 1 \<or> r mod 4 = 2 \<or> r mod 4 = 3" by presburger
    then show ?thesis by blast
  qed
  have k: "length (tetromino ! nat kind) = 16 \<and>
            py_get tetromino kind = Inr (tetromino ! nat kind) \<and>
            py_get (tetromino ! nat kind) (rotate_idx px py r) =
              Inr (tetromino ! nat kind ! nat (rotate_idx px py r)) \<and>
            (\<exists>b. occupies_cell kind r px py = Inr b) \<and>
            (wf_field f \<longrightarrow> (\<exists>b. does_piece_fit f kind r x y = Inr b)) \<and>
            (wf_field (field g) \<and> current_piece g = kind \<and> fits_here g \<longrightarrow>
               (\<exists>g'. lock_piece g = Inr g'))"
    if kk: "0 \<le> kind \<and> kind < 7"
  proof -
    from kk have k1: "0 \<le> kind" and k2: "kind < 7" by simp_all
    from tetromino_nth[OF k1 k2] have t: "py_get tetromino kind = Inr (tetromino ! nat kind)"
      "length (tetromino ! nat kind) = 16" by simp_all
    have p: "py_get (tetromino ! nat kind) (rotate_idx px py r) =
              Inr (tetromino ! nat kind ! nat (rotate_idx px py r))"
      using b t(2) by (simp add: py_get_nonneg)
    have o: "\<exists>b. occupies_cell kind r px py = Inr b"
      using occupies_cell_eq[OF k1 k2 assms] by blast
    have d: "wf_field f \<longrightarrow> (\<exists>b. does_piece_fit f kind r x y = Inr b)"
      using does_piece_fit_total[OF _ k1 k2] by blast
    have l: "wf_field (field g) \<and> current_piece g = kind \<and> fits_here g \<longrightarrow>
               (\<exists>g'. lock_piece g = Inr g')"
    proof
      assume h: "wf_field (field g) \<and> current_piece g = kind \<and> fits_here g"
      then have "wf_field (field g)" "0 \<le> current_piece g" "current_piece g < 7" "fits_here g"
        using k1 k2 by simp_all
      from lock_piece_ok[OF this] show "\<exists>g'. lock_piece g = Inr g'" by blast
    qed
    from t p o d l show ?thesis by blast
  qed
  from b m k show ?thesis by blast
qed

theorem lookups_in_bounds_witness:
  "rotate_idx 3 0 (- 3) = 0 \<and> (- 3::int) mod 4 = 1 \<and>
   occupies_cell 0 (- 3) 3 0 = Inr False \<and>
   (\<exists>b. does_piece_fit initial_field 0 (- 3) 4 0 = Inr b) \<and>
   (\<exists>g'. lock_piece (fresh_game 0) = Inr g')"
proof -
  have h: "(0::int) \<le> 3" "(3::int) < 4" "(0::int) \<le> 0" "(0::int) < 4" by simp_all
  have k: "(0::int) \<le> 0 \<and> (0::int) < 7" by simp
  have wf: "wf_field initial_field" by (rule wf_initial_field)
  have g: "wf_field (field (fresh_game 0)) \<and> current_piece (fresh_game 0) = 0 \<and>
      fits_here (fresh_game 0)"
    using game_inv_fresh[of 0] wf by (simp add: game_inv_def fresh_game_def)
  from lookups_in_bounds[OF h, of "- 3" 0 initial_field 4 0 "fresh_game 0"] k wf g
  have a: "\<exists>b. does_piece_fit initial_field 0 (- 3) 4 0 = Inr b"
    and b: "\<exists>g'. lock_piece (fresh_game 0) = Inr g'"
    by blast+
  have c: "rotate_idx 3 0 (- 3) = 0" "(- 3::int) mod 4 = 1"
    "occupies_cell 0 (- 3) 3 0 = Inr False"
    by code_simp+
  from a b c show ?thesis by blast
qed

end
